theory Spec2Isabelle
  imports Complex_Main "HOL-Library.Word" "HOL-Library.Sublist" "HOL-Library.Multiset"
begin

unbundle bit_operations_syntax

section \<open>Data model of source.go\<close>

text \<open>
  Go strings are byte sequences: \<^typ>\<open>string\<close> (a list of 8-bit characters).
\<close>

subsection \<open>Floating point numbers\<close>

text \<open>
  A Go \<open>float64\<close> or \<open>float32\<close> is an IEEE 754 binary floating point number: a
  finite number with a sign and a magnitude (so that there are two zeros), an infinity
  with a sign, or a NaN. The magnitude of a finite number is a real number; the numbers a
  format holds are those of \<open>representable\<close> below, with \<open>p\<close> the number of
  significand bits, \<open>emin\<close> the exponent of the smallest positive number and
  \<open>2 ^ emax\<close> the bound of the finite numbers: 53, -1074 and 1024 for \<open>float64\<close>,
  24, -149 and 128 for \<open>float32\<close>.
\<close>

datatype float = Finite bool real | Infinity bool | NaN

type_synonym float64 = float
type_synonym float32 = float




text \<open>
  Every operation of the Go code on floats yields the exact result rounded to the
  format, to the nearest number of the format with a tie going to the even significand:
  the magnitude \<open>m\<close> is divided by its unit in the last place, the quotient is rounded
  to an integer, and a result of \<open>2 ^ emax\<close> or more is an infinity.
\<close>

definition roundHalfEven :: "real \<Rightarrow> int" where
  "roundHalfEven x =
     (let f = \<lfloor>x\<rfloor> in
      if x - of_int f < 1 / 2 then f
      else if x - of_int f > 1 / 2 then f + 1
      else if even f then f else f + 1)"

definition ulpExponent :: "nat \<Rightarrow> int \<Rightarrow> real \<Rightarrow> int" where
  "ulpExponent p emin m = max (\<lfloor>log 2 m\<rfloor> - (int p - 1)) emin"

definition roundMagnitude :: "nat \<Rightarrow> int \<Rightarrow> real \<Rightarrow> real" where
  "roundMagnitude p emin m =
     (if m = 0 then 0
      else of_int (roundHalfEven (m / 2 powr of_int (ulpExponent p emin m)))
           * 2 powr of_int (ulpExponent p emin m))"

definition roundFloat :: "nat \<Rightarrow> int \<Rightarrow> nat \<Rightarrow> bool \<Rightarrow> real \<Rightarrow> float" where
  "roundFloat p emin emax neg m =
     (let r = roundMagnitude p emin m in
      if 2 ^ emax \<le> r then Infinity neg else Finite neg r)"

definition roundFloat64 :: "bool \<Rightarrow> real \<Rightarrow> float64" where
  "roundFloat64 neg m = roundFloat 53 (- 1074) 1024 neg m"

definition roundFloat32 :: "bool \<Rightarrow> real \<Rightarrow> float32" where
  "roundFloat32 neg m = roundFloat 24 (- 149) 128 neg m"

text \<open>
  The product \<open>x * y\<close> and the quotient \<open>x / y\<close> of two \<open>float64\<close>, the
  conversion \<open>float64(n)\<close> of an integer, the conversion \<open>float32(x)\<close> of a
  \<open>float64\<close> (which is what \<open>mmdbtype.Float32(x)\<close> does), and the comparison
  \<open>x == y\<close>, for which a NaN differs from every number, itself included, and the two
  zeros are equal.
\<close>

fun float_mul :: "float64 \<Rightarrow> float64 \<Rightarrow> float64" where
  "float_mul NaN y = NaN"
| "float_mul x NaN = NaN"
| "float_mul (Infinity s) (Infinity t) = Infinity (s \<noteq> t)"
| "float_mul (Infinity s) (Finite t b) = (if b = 0 then NaN else Infinity (s \<noteq> t))"
| "float_mul (Finite s a) (Infinity t) = (if a = 0 then NaN else Infinity (s \<noteq> t))"
| "float_mul (Finite s a) (Finite t b) = roundFloat64 (s \<noteq> t) (a * b)"

fun float_div :: "float64 \<Rightarrow> float64 \<Rightarrow> float64" where
  "float_div NaN y = NaN"
| "float_div x NaN = NaN"
| "float_div (Infinity s) (Infinity t) = NaN"
| "float_div (Infinity s) (Finite t b) = Infinity (s \<noteq> t)"
| "float_div (Finite s a) (Infinity t) = Finite (s \<noteq> t) 0"
| "float_div (Finite s a) (Finite t b) =
     (if b = 0 then (if a = 0 then NaN else Infinity (s \<noteq> t))
      else roundFloat64 (s \<noteq> t) (a / b))"

definition float64_of_int :: "int \<Rightarrow> float64" where
  "float64_of_int n = roundFloat64 (n < 0) \<bar>of_int n\<bar>"

fun toFloat32 :: "float64 \<Rightarrow> float32" where
  "toFloat32 NaN = NaN"
| "toFloat32 (Infinity s) = Infinity s"
| "toFloat32 (Finite s m) = roundFloat32 s m"


subsection \<open>Errors and typed values\<close>

text \<open>
  The errors the functions of source.go return. The first four are the errors of the
  Go standard library (\<open>strconv.ErrSyntax\<close>, \<open>strconv.ErrRange\<close>,
  \<open>hex.InvalidByteError\<close>, \<open>hex.ErrLength\<close>); the others are built by
  \<open>errors.New\<close> and \<open>fmt.Errorf\<close> in source.go, with the arguments of the format
  and the wrapped error (\<open>%w\<close>) last. \<open>PanicIndexOutOfRange\<close> is the
  run-time panic of an index expression out of range, and \<open>OtherError\<close> an error,
  given by its message, of a function that is not in source.go.
\<close>

datatype error =
    ErrSyntax
  | ErrRange
  | InvalidByteError char
  | ErrLength
  | UnsupportType
  | ArrayEntryInvalid nat error
  | FailedToTransform string string string error
  | SubmapNotAMap string string string
  | FailedToLoadInputFile string error
  | UnsupportedInputFile string
  | PanicIndexOutOfRange
  | OtherError string

text \<open>
  \<open>mmdbtype.DataType\<close>: the typed values of the mmdbwriter library that source.go
  builds. A \<open>mmdbtype.Map\<close> is a Go map from \<open>mmdbtype.String\<close> to
  \<open>mmdbtype.DataType\<close>.
\<close>

datatype DataType =
    Bool bool
  | String string
  | Bytes "8 word list"
  | Int32 "32 word"
  | Uint16 "16 word"
  | Uint32 "32 word"
  | Uint64 "64 word"
  | Float32 float32
  | Float64 float64
  | Slice "DataType list"
  | Map "string \<Rightarrow> DataType option"

type_synonym mmdbMap = "string \<Rightarrow> DataType option"

text \<open>What the verb \<open>%T\<close> prints for a value of each variant.\<close>

fun typeName :: "DataType \<Rightarrow> string" where
  "typeName (Bool _) = ''mmdbtype.Bool''"
| "typeName (String _) = ''mmdbtype.String''"
| "typeName (Bytes _) = ''mmdbtype.Bytes''"
| "typeName (Int32 _) = ''mmdbtype.Int32''"
| "typeName (Uint16 _) = ''mmdbtype.Uint16''"
| "typeName (Uint32 _) = ''mmdbtype.Uint32''"
| "typeName (Uint64 _) = ''mmdbtype.Uint64''"
| "typeName (Float32 _) = ''mmdbtype.Float32''"
| "typeName (Float64 _) = ''mmdbtype.Float64''"
| "typeName (Slice _) = ''mmdbtype.Slice''"
| "typeName (Map _) = ''mmdbtype.Map''"

text \<open>\<open>SourceValue\<close>: an unprocessed source data value, including its type.\<close>

record SourceValue =
  Type :: string
  Value :: string

text \<open>
  \<open>SourceEntry\<close>: a geoip data source entry. \<open>net.IP\<close> is a byte slice and
  \<open>net.IPNet\<close> a pair of an address and a mask. \<open>Values\<close> is a Go map: it is
  given as the list of its entries, with distinct keys, in the order in which the
  \<open>range\<close> loop of \<open>ToMMDBMap\<close> visits them (an order Go leaves unspecified).
\<close>

record SourceEntry =
  Net :: "(8 word list \<times> 8 word list) option"
  From :: "8 word list"
  To :: "8 word list"
  Values :: "(string \<times> SourceValue) list"

text \<open>
  \<open>DatabaseConfig\<close> and its inputs are declared outside source.go, which reads the
  file name of each input and passes the input and the \<open>types\<close> table on to the
  loaders.
\<close>

record DatabaseInput =
  File :: string
  Fields :: "string list"

record DatabaseConfig =
  Inputs :: "DatabaseInput list"
  Types :: "(string \<times> string) list"

text \<open>
  \<open>Optimizations\<close> is declared outside source.go; its fields are those of the
  \<open>optimize\<close> section of the configuration (\<open>floatDecimals\<close>,
  \<open>forceIPVersion\<close>, \<open>maxPrefix\<close>). source.go reads \<open>FloatDecimals\<close> only.
\<close>

record Optimizations =
  FloatDecimals :: int
  ForceIPVersion :: bool
  MaxPrefix :: int

section \<open>The Go standard library functions source.go calls\<close>

subsection \<open>strings\<close>

text \<open>\<open>strings.HasPrefix\<close>, \<open>strings.HasSuffix\<close> and \<open>strings.CutPrefix\<close>.\<close>

definition strings_HasPrefix :: "string \<Rightarrow> string \<Rightarrow> bool" where
  "strings_HasPrefix s pre = (length pre \<le> length s \<and> take (length pre) s = pre)"

definition strings_HasSuffix :: "string \<Rightarrow> string \<Rightarrow> bool" where
  "strings_HasSuffix s suf = (length suf \<le> length s \<and> drop (length s - length suf) s = suf)"

definition strings_CutPrefix :: "string \<Rightarrow> string \<Rightarrow> string \<times> bool" where
  "strings_CutPrefix s pre = (if strings_HasPrefix s pre then (drop (length pre) s, True) else (s, False))"

text \<open>
  \<open>strings.Split(s, ".")\<close>: the substrings between the dots, in order. The result is
  never empty: a string without a dot (the empty string too) gives one substring.
\<close>

fun strings_Split :: "string \<Rightarrow> string list" where
  "strings_Split [] = [[]]"
| "strings_Split (c # cs) =
     (if c = CHR ''.'' then [] # strings_Split cs
      else (case strings_Split cs of
              [] \<Rightarrow> [[c]]
            | w # ws \<Rightarrow> (c # w) # ws))"

text \<open>\<open>strings.Join(elems, ".")\<close>.\<close>

fun strings_Join :: "string list \<Rightarrow> string" where
  "strings_Join [] = []"
| "strings_Join [w] = w"
| "strings_Join (w # ws) = w @ CHR ''.'' # strings_Join ws"

text \<open>
  \<open>strings.Fields\<close> splits around each run of white space characters, as
  \<open>unicode.IsSpace\<close> defines them, on the UTF-8 encoding of the string.
  \<open>spaceWidth s\<close> is the number of bytes of the white space character that \<open>s\<close>
  starts with, and 0 when it starts with none: the six ASCII characters (tab, line feed,
  vertical tab, form feed, carriage return, space), U+0085 and U+00A0 (two bytes),
  U+1680, U+2000 to U+200A, U+2028, U+2029, U+202F, U+205F and U+3000 (three bytes).
\<close>

definition isAsciiSpace :: "char \<Rightarrow> bool" where
  "isAsciiSpace c =
     (let b = (of_char c :: nat) in b = 9 \<or> b = 10 \<or> b = 11 \<or> b = 12 \<or> b = 13 \<or> b = 32)"

definition spaceWidth :: "string \<Rightarrow> nat" where
  "spaceWidth s =
     (case s of
        [] \<Rightarrow> 0
      | c0 # r0 \<Rightarrow>
          if isAsciiSpace c0 then 1
          else (case r0 of
              [] \<Rightarrow> 0
            | c1 # r1 \<Rightarrow>
                (let b0 = (of_char c0 :: nat); b1 = (of_char c1 :: nat) in
                 if b0 = 0xC2 \<and> (b1 = 0x85 \<or> b1 = 0xA0) then 2
                 else (case r1 of
                     [] \<Rightarrow> 0
                   | c2 # _ \<Rightarrow>
                       (let b2 = (of_char c2 :: nat) in
                        if b0 = 0xE1 \<and> b1 = 0x9A \<and> b2 = 0x80 then 3
                        else if b0 = 0xE2 \<and> b1 = 0x80 \<and>
                                (0x80 \<le> b2 \<and> b2 \<le> 0x8A \<or> b2 = 0xA8 \<or> b2 = 0xA9 \<or> b2 = 0xAF)
                             then 3
                        else if b0 = 0xE2 \<and> b1 = 0x81 \<and> b2 = 0x9F then 3
                        else if b0 = 0xE3 \<and> b1 = 0x80 \<and> b2 = 0x80 then 3
                        else 0)))))"

text \<open>
  The scan of \<open>strings.Fields\<close>: \<open>cur\<close> is the field being read (empty between
  fields), \<open>s\<close> the rest of the string.
\<close>

function strings_FieldsFrom :: "string \<Rightarrow> string \<Rightarrow> string list" where
  "strings_FieldsFrom cur s =
     (if s = [] then (if cur = [] then [] else [cur])
      else if 0 < spaceWidth s
        then (if cur = [] then [] else [cur]) @ strings_FieldsFrom [] (drop (spaceWidth s) s)
      else strings_FieldsFrom (cur @ [hd s]) (tl s))"
  by pat_completeness auto
termination
  by (relation "measure (\<lambda>(cur, s). length s)") auto

declare strings_FieldsFrom.simps [simp del]

definition strings_Fields :: "string \<Rightarrow> string list" where
  "strings_Fields s = strings_FieldsFrom [] s"

subsection \<open>strconv\<close>

text \<open>\<open>strconv.ParseBool\<close>.\<close>

definition strconv_ParseBool :: "string \<Rightarrow> error + bool" where
  "strconv_ParseBool str =
     (if str \<in> {''1'', ''t'', ''T'', ''true'', ''TRUE'', ''True''} then Inr True
      else if str \<in> {''0'', ''f'', ''F'', ''false'', ''FALSE'', ''False''} then Inr False
      else Inl ErrSyntax)"

text \<open>
  \<open>strconv.ParseUint(s, 10, bitSize)\<close>, in base 10 as every call of source.go has it.
  The loop reads one byte at a time into the 64-bit accumulator \<open>n\<close>: a byte that is
  not a decimal digit is a syntax error; the value is out of range when \<open>n * 10\<close>
  would overflow (\<open>n \<ge> cutoff\<close>), when adding the digit wraps around 64 bits
  (\<open>n1 < n\<close>), or when the sum exceeds \<open>maxVal = 2 ^ bitSize - 1\<close>.
\<close>

definition maxUint64 :: nat where
  "maxUint64 = 2 ^ 64 - 1"

fun strconv_ParseUintLoop :: "nat \<Rightarrow> string \<Rightarrow> nat \<Rightarrow> error + nat" where
  "strconv_ParseUintLoop maxVal [] n = Inr n"
| "strconv_ParseUintLoop maxVal (c # cs) n =
     (let b = (of_char c :: nat) in
      if \<not> (48 \<le> b \<and> b \<le> 57) then Inl ErrSyntax
      else let d = b - 48 in
        if n \<ge> maxUint64 div 10 + 1 then Inl ErrRange
        else let n10 = n * 10; n1 = (n10 + d) mod 2 ^ 64 in
          if n1 < n10 \<or> n1 > maxVal then Inl ErrRange
          else strconv_ParseUintLoop maxVal cs n1)"

definition strconv_ParseUint :: "string \<Rightarrow> nat \<Rightarrow> error + nat" where
  "strconv_ParseUint s bitSize =
     (if s = [] then Inl ErrSyntax else strconv_ParseUintLoop (2 ^ bitSize - 1) s 0)"

text \<open>
  \<open>strconv.ParseInt(s, 10, bitSize)\<close>: an optional sign, then \<open>ParseUint\<close> with
  the same \<open>bitSize\<close>. A syntax error is returned as it is; with a range error
  \<open>ParseUint\<close> returns its \<open>maxVal = 2 ^ bitSize - 1\<close> as \<open>un\<close>, which goes
  through the cutoff test below like a parsed value.
\<close>

definition strconv_ParseInt :: "string \<Rightarrow> nat \<Rightarrow> error + int" where
  "strconv_ParseInt s bitSize =
     (if s = [] then Inl ErrSyntax
      else let neg = (hd s = CHR ''-'');
               s1 = (if hd s = CHR ''+'' \<or> hd s = CHR ''-'' then tl s else s);
               r = strconv_ParseUint s1 bitSize
           in if r = Inl ErrSyntax then Inl ErrSyntax
              else let un = (case r of Inr u \<Rightarrow> u | Inl _ \<Rightarrow> 2 ^ bitSize - 1);
                       cutoff = (2::nat) ^ (bitSize - 1)
                   in if \<not> neg \<and> un \<ge> cutoff then Inl ErrRange
                      else if neg \<and> un > cutoff then Inl ErrRange
                      else Inr (if neg then - int un else int un))"

subsection \<open>encoding/hex\<close>

text \<open>\<open>hex.DecodeString\<close>: two hexadecimal digits (of either case) for each byte.\<close>

definition fromHexChar :: "char \<Rightarrow> nat option" where
  "fromHexChar c =
     (let b = (of_char c :: nat) in
      if 48 \<le> b \<and> b \<le> 57 then Some (b - 48)
      else if 97 \<le> b \<and> b \<le> 102 then Some (b - 97 + 10)
      else if 65 \<le> b \<and> b \<le> 70 then Some (b - 65 + 10)
      else None)"

fun hex_DecodeString :: "string \<Rightarrow> error + 8 word list" where
  "hex_DecodeString [] = Inr []"
| "hex_DecodeString [p] =
     (if fromHexChar p = None then Inl (InvalidByteError p) else Inl ErrLength)"
| "hex_DecodeString (p # q # rest) =
     (case fromHexChar p of
        None \<Rightarrow> Inl (InvalidByteError p)
      | Some a \<Rightarrow>
          (case fromHexChar q of
             None \<Rightarrow> Inl (InvalidByteError q)
           | Some b \<Rightarrow>
               (case hex_DecodeString rest of
                  Inl err \<Rightarrow> Inl err
                | Inr bs \<Rightarrow> Inr ((push_bit 4 (word_of_nat a) OR word_of_nat b) # bs))))"

subsection \<open>math\<close>

text \<open>
  \<open>math.Round\<close> returns the nearest integer, rounding half away from zero, with the
  special cases \<open>Round(\<plusminus>0) = \<plusminus>0\<close>, \<open>Round(\<plusminus>Inf) = \<plusminus>Inf\<close> and
  \<open>Round(NaN) = NaN\<close>. Its reference implementation in the Go source is
  \<^verbatim>\<open>t := Trunc(x); if Abs(x-t) >= 0.5 { return t + Copysign(1, x) }; return t\<close>:
  on the magnitude, the integer part \<open>t\<close> and one more when the rest is a half or
  more. The result keeps the sign of \<open>x\<close> and is exact: the integers next to a number
  of the format are in the format.
\<close>

fun math_Round :: "float64 \<Rightarrow> float64" where
  "math_Round NaN = NaN"
| "math_Round (Infinity s) = Infinity s"
| "math_Round (Finite s m) =
     (let t = \<lfloor>m\<rfloor> in
      if m - of_int t \<ge> 1 / 2 then Finite s (of_int (t + 1)) else Finite s (of_int t))"

text \<open>
  Two functions of the Go standard library are parameters of the model, since their
  results are not fixed by source.go: \<open>strconv.ParseFloat\<close>, a function from the text
  and the bit size to an error or the parsed \<open>float64\<close> (among the texts it accepts
  are \<open>NaN\<close> and \<open>Inf\<close>), and \<open>math.Pow\<close>, whose result is close to, but
  not always the float nearest to, the exact power.
\<close>

record stdlib =
  strconv_ParseFloat :: "string \<Rightarrow> nat \<Rightarrow> error + float64"
  math_Pow :: "float64 \<Rightarrow> float64 \<Rightarrow> float64"

section \<open>Type coercion\<close>

text \<open>\<open>roundToDecimalPlaces\<close>, lines 193 to 199.\<close>

definition roundToDecimalPlaces :: "stdlib \<Rightarrow> float64 \<Rightarrow> int \<Rightarrow> float64" where
  "roundToDecimalPlaces lib num decimalPlaces =
     (let decimalPlaces = (if decimalPlaces < 0 then 0 else decimalPlaces);
          shift = math_Pow lib (Finite False 10) (float64_of_int decimalPlaces)
      in float_div (math_Round (float_mul num shift)) shift)"

text \<open>
  \<open>toMMDBType\<close>, lines 106 to 176. The conversions \<open>int32(v)\<close>, \<open>uint16(v)\<close>
  and \<open>uint32(v)\<close> keep the low bits of \<open>v\<close>; \<open>mmdbtype.Float32(v)\<close> rounds
  the \<open>float64\<close> to a \<open>float32\<close>.
\<close>

definition toMMDBType :: "stdlib \<Rightarrow> string \<Rightarrow> string \<Rightarrow> Optimizations \<Rightarrow> error + DataType" where
  "toMMDBType lib fieldType fieldValue optim =
     (if fieldType = ''bool'' then
        (case strconv_ParseBool fieldValue of Inl err \<Rightarrow> Inl err | Inr v \<Rightarrow> Inr (Bool v))
      else if fieldType = ''string'' then Inr (String fieldValue)
      else if fieldType = ''hexbytes'' then
        (case hex_DecodeString fieldValue of Inl err \<Rightarrow> Inl err | Inr v \<Rightarrow> Inr (Bytes v))
      else if fieldType = ''int32'' then
        (case strconv_ParseInt fieldValue 32 of Inl err \<Rightarrow> Inl err | Inr v \<Rightarrow> Inr (Int32 (word_of_int v)))
      else if fieldType = ''uint16'' then
        (case strconv_ParseUint fieldValue 16 of Inl err \<Rightarrow> Inl err | Inr v \<Rightarrow> Inr (Uint16 (word_of_nat v)))
      else if fieldType = ''uint32'' then
        (case strconv_ParseUint fieldValue 32 of Inl err \<Rightarrow> Inl err | Inr v \<Rightarrow> Inr (Uint32 (word_of_nat v)))
      else if fieldType = ''uint64'' then
        (case strconv_ParseUint fieldValue 64 of Inl err \<Rightarrow> Inl err | Inr v \<Rightarrow> Inr (Uint64 (word_of_nat v)))
      else if fieldType = ''float32'' then
        (case strconv_ParseFloat lib fieldValue 32 of
           Inl err \<Rightarrow> Inl err
         | Inr v \<Rightarrow>
             Inr (Float32 (toFloat32 (if FloatDecimals optim \<noteq> 0
                                      then roundToDecimalPlaces lib v (FloatDecimals optim) else v))))
      else if fieldType = ''float64'' then
        (case strconv_ParseFloat lib fieldValue 64 of
           Inl err \<Rightarrow> Inl err
         | Inr v \<Rightarrow>
             Inr (Float64 (if FloatDecimals optim \<noteq> 0
                           then roundToDecimalPlaces lib v (FloatDecimals optim) else v)))
      else Inl UnsupportType)"

text \<open>
  \<open>toMMDBArray\<close>, lines 178 to 191: the loop over the fields, with the index \<open>i\<close>
  and the array built so far.
\<close>

fun toMMDBArrayLoop ::
  "stdlib \<Rightarrow> string \<Rightarrow> Optimizations \<Rightarrow> nat \<Rightarrow> string list \<Rightarrow> DataType list
   \<Rightarrow> error + DataType list" where
  "toMMDBArrayLoop lib fieldType optim i [] array = Inr array"
| "toMMDBArrayLoop lib fieldType optim i (field # rest) array =
     (case toMMDBType lib fieldType field optim of
        Inl err \<Rightarrow> Inl (ArrayEntryInvalid i err)
      | Inr entry \<Rightarrow> toMMDBArrayLoop lib fieldType optim (Suc i) rest (array @ [entry]))"

definition toMMDBArray :: "stdlib \<Rightarrow> string \<Rightarrow> string \<Rightarrow> Optimizations \<Rightarrow> error + DataType" where
  "toMMDBArray lib fieldType fieldValue optim =
     (case toMMDBArrayLoop lib fieldType optim 0 (strings_Fields fieldValue) [] of
        Inl err \<Rightarrow> Inl err
      | Inr array \<Rightarrow> Inr (Slice array))"

text \<open>\<open>SourceValue.ToMMDBType\<close>, lines 97 to 104.\<close>

definition ToMMDBType :: "stdlib \<Rightarrow> SourceValue \<Rightarrow> Optimizations \<Rightarrow> error + DataType" where
  "ToMMDBType lib sv optim =
     (let (subType, isArrayType) = strings_CutPrefix (Type sv) ''array:'' in
      if isArrayType then toMMDBArray lib subType (Value sv) optim
      else toMMDBType lib (Type sv) (Value sv) optim)"


section \<open>Document assembly\<close>

text \<open>The type assertion \<open>subMapVal.(mmdbtype.Map)\<close>, with its \<open>ok\<close> result.\<close>

fun asMap :: "DataType \<Rightarrow> mmdbMap option" where
  "asMap (Map sub) = Some sub"
| "asMap _ = None"

text \<open>
  The body of the loop of \<open>ToMMDBMap\<close> after the coercion, lines 73 to 90: the walk
  along \<open>keyParts\<close> that gets or creates the sub map for the entry, and the write of the
  value under the last part. The Go code walks by reference and writes in place; here
  each step returns the map with the sub map replaced by its updated copy, which is the
  same tree, since a sub map has one parent. \<open>key\<close> and \<open>topPart\<close>
  (\<open>strings.Join(keyParts[:1], ".")\<close>) are the arguments of the error message.
  \<open>strings.Split\<close> never returns an empty list; on one, the index expression
  \<open>keyParts[len(keyParts)-1]\<close> would panic.
\<close>

fun setValue :: "string \<Rightarrow> string \<Rightarrow> string list \<Rightarrow> DataType \<Rightarrow> mmdbMap \<Rightarrow> error + mmdbMap" where
  "setValue key topPart [] mmdbVal mapForEntry = Inl PanicIndexOutOfRange"
| "setValue key topPart [part] mmdbVal mapForEntry = Inr (mapForEntry(part \<mapsto> mmdbVal))"
| "setValue key topPart (part # rest) mmdbVal mapForEntry =
     (case mapForEntry part of
        None \<Rightarrow>
          (case setValue key topPart rest mmdbVal Map.empty of
             Inl err \<Rightarrow> Inl err
           | Inr nextMapForEntry \<Rightarrow> Inr (mapForEntry(part \<mapsto> Map nextMapForEntry)))
      | Some subMapVal \<Rightarrow>
          (case asMap subMapVal of
             None \<Rightarrow> Inl (SubmapNotAMap key topPart (typeName subMapVal))
           | Some sub \<Rightarrow>
               (case setValue key topPart rest mmdbVal sub of
                  Inl err \<Rightarrow> Inl err
                | Inr nextMapForEntry \<Rightarrow> Inr (mapForEntry(part \<mapsto> Map nextMapForEntry)))))"

text \<open>\<open>SourceEntry.ToMMDBMap\<close>, lines 63 to 94: the loop over the entries, then the function.\<close>

fun ToMMDBMapLoop ::
  "stdlib \<Rightarrow> Optimizations \<Rightarrow> (string \<times> SourceValue) list \<Rightarrow> mmdbMap \<Rightarrow> error + mmdbMap" where
  "ToMMDBMapLoop lib optim [] m = Inr m"
| "ToMMDBMapLoop lib optim ((key, entry) # rest) m =
     (case ToMMDBType lib entry optim of
        Inl err \<Rightarrow> Inl (FailedToTransform key (Value entry) (Type entry) err)
      | Inr mmdbVal \<Rightarrow>
          (let keyParts = strings_Split key in
           case setValue key (strings_Join (take 1 keyParts)) keyParts mmdbVal m of
             Inl err \<Rightarrow> Inl err
           | Inr m' \<Rightarrow> ToMMDBMapLoop lib optim rest m'))"

definition ToMMDBMap :: "stdlib \<Rightarrow> SourceEntry \<Rightarrow> Optimizations \<Rightarrow> error + mmdbMap" where
  "ToMMDBMap lib se optim = ToMMDBMapLoop lib optim (Values se) Map.empty"

section \<open>Loading the sources\<close>

text \<open>
  \<open>LoadSources\<close>, lines 38 to 60. \<open>LoadCSVSource\<close> and \<open>LoadIPFireSource\<close> are
  not in source.go: they are parameters, functions from the input and the types table to
  an error or a source (\<open>'src\<close>, a value of the interface \<open>Source\<close>). The result
  is the pair Go returns: the sources, \<open>nil\<close> being the empty list, and the error,
  \<open>nil\<close> being \<open>None\<close>.
\<close>

type_synonym 'src loader = "DatabaseInput \<Rightarrow> (string \<times> string) list \<Rightarrow> error + 'src"

fun LoadSourcesLoop ::
  "'src loader \<Rightarrow> 'src loader \<Rightarrow> (string \<times> string) list \<Rightarrow> DatabaseInput list \<Rightarrow> 'src list
   \<Rightarrow> 'src list \<times> error option" where
  "LoadSourcesLoop LoadCSVSource LoadIPFireSource types [] sources = (sources, None)"
| "LoadSourcesLoop LoadCSVSource LoadIPFireSource types (input # rest) sources =
     (if strings_HasSuffix (File input) ''.csv'' then
        (case LoadCSVSource input types of
           Inl err \<Rightarrow> ([], Some (FailedToLoadInputFile (File input) err))
         | Inr s \<Rightarrow> LoadSourcesLoop LoadCSVSource LoadIPFireSource types rest (sources @ [s]))
      else if strings_HasSuffix (File input) ''.ipfire.txt'' then
        (case LoadIPFireSource input types of
           Inl err \<Rightarrow> ([], Some (FailedToLoadInputFile (File input) err))
         | Inr s \<Rightarrow> LoadSourcesLoop LoadCSVSource LoadIPFireSource types rest (sources @ [s]))
      else ([], Some (UnsupportedInputFile (File input))))"

definition LoadSources ::
  "'src loader \<Rightarrow> 'src loader \<Rightarrow> DatabaseConfig \<Rightarrow> 'src list \<times> error option" where
  "LoadSources LoadCSVSource LoadIPFireSource dbConfig =
     LoadSourcesLoop LoadCSVSource LoadIPFireSource (Types dbConfig) (Inputs dbConfig) []"

section \<open>Notions of the specification\<close>

text \<open>The supported scalar type tags, and the tag of a scalar value.\<close>

definition scalarTypes :: "string set" where
  "scalarTypes = {''bool'', ''string'', ''hexbytes'', ''int32'', ''uint16'', ''uint32'',
     ''uint64'', ''float32'', ''float64''}"

fun scalarTag :: "DataType \<Rightarrow> string option" where
  "scalarTag (Bool _) = Some ''bool''"
| "scalarTag (String _) = Some ''string''"
| "scalarTag (Bytes _) = Some ''hexbytes''"
| "scalarTag (Int32 _) = Some ''int32''"
| "scalarTag (Uint16 _) = Some ''uint16''"
| "scalarTag (Uint32 _) = Some ''uint32''"
| "scalarTag (Uint64 _) = Some ''uint64''"
| "scalarTag (Float32 _) = Some ''float32''"
| "scalarTag (Float64 _) = Some ''float64''"
| "scalarTag (Slice _) = None"
| "scalarTag (Map _) = None"

text \<open>
  The numeric value of a raw text, as the specification speaks of it: the text is a
  decimal numeral, one or more digits after an optional sign, and denotes an integer of
  any size. \<open>digitsValue n ds\<close> is the value of the digits \<open>ds\<close> read after a
  numeral of value \<open>n\<close>.
\<close>

definition isDigit :: "char \<Rightarrow> bool" where
  "isDigit c = (48 \<le> (of_char c :: nat) \<and> (of_char c :: nat) \<le> 57)"

definition digitsValue :: "nat \<Rightarrow> string \<Rightarrow> nat" where
  "digitsValue n ds = foldl (\<lambda>a c. 10 * a + (of_char c - 48)) n ds"

definition numericValue :: "string \<Rightarrow> int option" where
  "numericValue s =
     (case s of
        [] \<Rightarrow> None
      | c # cs \<Rightarrow>
          if c = CHR ''-'' \<or> c = CHR ''+'' then
            (if cs \<noteq> [] \<and> list_all isDigit cs
             then Some (if c = CHR ''-'' then - int (digitsValue 0 cs) else int (digitsValue 0 cs))
             else None)
          else if list_all isDigit s then Some (int (digitsValue 0 s)) else None)"

text \<open>
  The range of each declared integer type, and the integer a typed value of one of
  them holds (signed for \<open>int32\<close>, unsigned for the others).
\<close>

definition intRange :: "string \<Rightarrow> (int \<times> int) option" where
  "intRange t =
     (if t = ''int32'' then Some (- (2 ^ 31), 2 ^ 31 - 1)
      else if t = ''uint16'' then Some (0, 2 ^ 16 - 1)
      else if t = ''uint32'' then Some (0, 2 ^ 32 - 1)
      else if t = ''uint64'' then Some (0, 2 ^ 64 - 1)
      else None)"

fun intValue :: "DataType \<Rightarrow> int" where
  "intValue (Int32 w) = sint w"
| "intValue (Uint16 w) = uint w"
| "intValue (Uint32 w) = uint w"
| "intValue (Uint64 w) = uint w"
| "intValue _ = 0"




text \<open>
  Loading one input, as one pass of the loop of \<open>LoadSources\<close> does it: the loader
  is chosen by the suffix of the file name, and the outcome is the source or the error
  that \<open>LoadSources\<close> returns for this input.
\<close>

definition loadInput ::
  "'src loader \<Rightarrow> 'src loader \<Rightarrow> (string \<times> string) list \<Rightarrow> DatabaseInput \<Rightarrow> error + 'src" where
  "loadInput LoadCSVSource LoadIPFireSource types input =
     (if strings_HasSuffix (File input) ''.csv'' then
        (case LoadCSVSource input types of
           Inl err \<Rightarrow> Inl (FailedToLoadInputFile (File input) err)
         | Inr s \<Rightarrow> Inr s)
      else if strings_HasSuffix (File input) ''.ipfire.txt'' then
        (case LoadIPFireSource input types of
           Inl err \<Rightarrow> Inl (FailedToLoadInputFile (File input) err)
         | Inr s \<Rightarrow> Inr s)
      else Inl (UnsupportedInputFile (File input)))"

text \<open>
  Notions for the document assembly. \<open>subMapOf m part\<close> is the sub map the walk of
  \<open>ToMMDBMap\<close> goes into at \<open>part\<close>: the empty map it creates when the part is
  absent, the map found there, or none when the value found is not a map.
  \<open>leafAt m r\<close> says that the document \<open>m\<close> holds a value that is not a map at
  the path \<open>r\<close>. A list of keys has independent paths when the keys are distinct, as
  the keys of a Go map are, and no dotted path is a strict prefix of another.
\<close>

definition subMapOf :: "mmdbMap \<Rightarrow> string \<Rightarrow> mmdbMap option" where
  "subMapOf m part = (case m part of None \<Rightarrow> Some Map.empty | Some x \<Rightarrow> asMap x)"

fun leafAt :: "mmdbMap \<Rightarrow> string list \<Rightarrow> bool" where
  "leafAt m [] = False"
| "leafAt m [part] = (case m part of None \<Rightarrow> False | Some x \<Rightarrow> asMap x = None)"
| "leafAt m (part # rest) =
     (case m part of
        None \<Rightarrow> False
      | Some x \<Rightarrow> (case asMap x of None \<Rightarrow> False | Some sub \<Rightarrow> leafAt sub rest))"

definition independentPaths :: "string list \<Rightarrow> bool" where
  "independentPaths keys =
     (distinct keys \<and>
      (\<forall>k1\<in>set keys. \<forall>k2\<in>set keys. \<not> strict_prefix (strings_Split k1) (strings_Split k2)))"

section \<open>Properties of the coercion\<close>

subsection \<open>Auxiliary facts\<close>

lemma CutPrefix_array: "strings_CutPrefix (''array:'' @ sub) ''array:'' = (sub, True)"
  by (simp add: strings_CutPrefix_def strings_HasPrefix_def)

lemma ToMMDBType_array_tag:
  "Type sv = ''array:'' @ sub \<Longrightarrow> ToMMDBType pf sv optim = toMMDBArray pf sub (Value sv) optim"
  by (simp add: ToMMDBType_def CutPrefix_array del: append.simps)

lemma ToMMDBType_not_array:
  "\<not> strings_HasPrefix (Type sv) ''array:'' \<Longrightarrow>
   ToMMDBType pf sv optim = toMMDBType pf (Type sv) (Value sv) optim"
  by (simp add: ToMMDBType_def strings_CutPrefix_def)

lemma HasPrefix_append: "strings_HasPrefix s pre \<Longrightarrow> s = pre @ drop (length pre) s"
  unfolding strings_HasPrefix_def by (metis append_take_drop_id)

lemma ToMMDBType_cases:
  "(\<exists>sub. Type sv = ''array:'' @ sub \<and> ToMMDBType pf sv optim = toMMDBArray pf sub (Value sv) optim)
   \<or> (\<not> strings_HasPrefix (Type sv) ''array:'' \<and>
       ToMMDBType pf sv optim = toMMDBType pf (Type sv) (Value sv) optim)"
proof (cases "strings_HasPrefix (Type sv) ''array:''")
  case True
  then have "Type sv = ''array:'' @ drop (length ''array:'') (Type sv)"
    by (rule HasPrefix_append)
  then show ?thesis using ToMMDBType_array_tag by blast
next
  case False
  then show ?thesis using ToMMDBType_not_array by blast
qed

lemma toMMDBType_scalarTag:
  "toMMDBType pf t s optim = Inr v \<Longrightarrow> scalarTag v = Some t"
  by (auto simp: toMMDBType_def split: if_splits sum.splits)

lemma toMMDBType_unsupported:
  "t \<notin> scalarTypes \<Longrightarrow> toMMDBType pf t s optim = Inl UnsupportType"
  by (simp add: toMMDBType_def scalarTypes_def)

lemma toMMDBArrayLoop_ok:
  "\<forall>tok\<in>set toks. \<exists>v. toMMDBType pf t tok optim = Inr v \<Longrightarrow>
   toMMDBArrayLoop pf t optim i toks acc =
     Inr (acc @ map (\<lambda>tok. projr (toMMDBType pf t tok optim)) toks)"
  by (induction toks arbitrary: i acc) auto

lemma toMMDBArrayLoop_fail:
  "\<forall>tok\<in>set pre. \<exists>v. toMMDBType pf t tok optim = Inr v \<Longrightarrow>
   toMMDBType pf t bad optim = Inl e \<Longrightarrow>
   toMMDBArrayLoop pf t optim i (pre @ bad # post) acc = Inl (ArrayEntryInvalid (i + length pre) e)"
  by (induction pre arbitrary: i acc) auto

lemma toMMDBArrayLoop_Inr:
  "toMMDBArrayLoop pf t optim i toks acc = Inr vs \<Longrightarrow>
   \<exists>ws. vs = acc @ ws \<and> length ws = length toks \<and>
     (\<forall>j<length toks. toMMDBType pf t (toks ! j) optim = Inr (ws ! j))"
proof (induction toks arbitrary: i acc)
  case Nil
  then show ?case by simp
next
  case (Cons tok toks)
  from Cons.prems obtain v where v: "toMMDBType pf t tok optim = Inr v"
    and rest: "toMMDBArrayLoop pf t optim (Suc i) toks (acc @ [v]) = Inr vs"
    by (auto split: sum.splits)
  from Cons.IH[OF rest] obtain ws where ws: "vs = (acc @ [v]) @ ws" "length ws = length toks"
    "\<forall>j<length toks. toMMDBType pf t (toks ! j) optim = Inr (ws ! j)" by blast
  show ?case
  proof (intro exI[of _ "v # ws"] conjI allI impI)
    fix j assume "j < length (tok # toks)"
    then show "toMMDBType pf t ((tok # toks) ! j) optim = Inr ((v # ws) ! j)"
      using v ws(3) by (cases j) auto
  qed (use ws in auto)
qed

lemma toMMDBArray_fail:
  assumes "i < length (strings_Fields raw)"
    and "\<forall>j<i. \<exists>v. toMMDBType pf t (strings_Fields raw ! j) optim = Inr v"
    and "toMMDBType pf t (strings_Fields raw ! i) optim = Inl e"
  shows "toMMDBArray pf t raw optim = Inl (ArrayEntryInvalid i e)"
proof -
  let ?toks = "strings_Fields raw"
  have split: "?toks = take i ?toks @ (?toks ! i) # drop (Suc i) ?toks"
    using assms(1) by (simp add: id_take_nth_drop)
  have pre: "\<forall>tok\<in>set (take i ?toks). \<exists>v. toMMDBType pf t tok optim = Inr v"
    using assms(1,2) by (auto simp: in_set_conv_nth)
  have "toMMDBArrayLoop pf t optim 0 (take i ?toks @ (?toks ! i) # drop (Suc i) ?toks) []
          = Inl (ArrayEntryInvalid (0 + length (take i ?toks)) e)"
    by (rule toMMDBArrayLoop_fail[OF pre assms(3)])
  with split assms(1) have "toMMDBArrayLoop pf t optim 0 ?toks [] = Inl (ArrayEntryInvalid i e)"
    by simp
  then show ?thesis by (simp add: toMMDBArray_def)
qed

lemma toMMDBArray_empty:
  "strings_Fields raw = [] \<Longrightarrow> toMMDBArray pf t raw optim = Inr (Slice [])"
  by (simp add: toMMDBArray_def)

lemma toMMDBArray_Inr:
  assumes "toMMDBArray pf t raw optim = Inr v"
  shows "\<exists>vs. v = Slice vs \<and> length vs = length (strings_Fields raw) \<and>
     (\<forall>j<length vs. toMMDBType pf t (strings_Fields raw ! j) optim = Inr (vs ! j))"
proof -
  from assms obtain vs where v: "v = Slice vs"
    and l: "toMMDBArrayLoop pf t optim 0 (strings_Fields raw) [] = Inr vs"
    by (auto simp: toMMDBArray_def split: sum.splits)
  from toMMDBArrayLoop_Inr[OF l] v show ?thesis by auto
qed

lemma toMMDBType_not_Slice: "toMMDBType pf t s optim \<noteq> Inr (Slice vs)"
  using toMMDBType_scalarTag[of pf t s optim "Slice vs"] by auto

lemma toMMDBType_not_Map: "toMMDBType pf t s optim \<noteq> Inr (Map m)"
  using toMMDBType_scalarTag[of pf t s optim "Map m"] by auto

lemma ToMMDBType_asMap:
  assumes "ToMMDBType pf sv optim = Inr v"
  shows "asMap v = None"
proof -
  from ToMMDBType_cases[of sv pf optim] assms
  have "(\<exists>sub. toMMDBArray pf sub (Value sv) optim = Inr v)
        \<or> toMMDBType pf (Type sv) (Value sv) optim = Inr v" by auto
  then show ?thesis
  proof
    assume "\<exists>sub. toMMDBArray pf sub (Value sv) optim = Inr v"
    then obtain vs where "v = Slice vs" using toMMDBArray_Inr by blast
    then show ?thesis by simp
  next
    assume "toMMDBType pf (Type sv) (Value sv) optim = Inr v"
    then have "scalarTag v = Some (Type sv)" by (rule toMMDBType_scalarTag)
    then show ?thesis by (cases v) auto
  qed
qed

lemma first_failing_token:
  assumes "\<exists>tok\<in>set toks. \<exists>e. f tok = Inl e"
  shows "\<exists>i e. i < length toks \<and> (\<forall>j<i. \<exists>v. f (toks ! j) = Inr v) \<and> f (toks ! i) = Inl e"
proof -
  from split_list_first_prop[OF assms] obtain pre bad post where
    s: "toks = pre @ bad # post" and bad: "\<exists>e. f bad = Inl e"
    and pre: "\<forall>y\<in>set pre. \<not> (\<exists>e. f y = Inl e)" by blast
  from bad obtain e where e: "f bad = Inl e" by blast
  have "\<forall>j<length pre. \<exists>v. f (toks ! j) = Inr v"
  proof (intro allI impI)
    fix j assume j: "j < length pre"
    then have "pre ! j \<in> set pre" by simp
    with pre have "\<not> (\<exists>e. f (pre ! j) = Inl e)" by blast
    then obtain v where "f (pre ! j) = Inr v" by (cases "f (pre ! j)") auto
    with j s show "\<exists>v. f (toks ! j) = Inr v" by (simp add: nth_append)
  qed
  with s e show ?thesis
    by (intro exI[of _ "length pre"] exI[of _ e]) (simp add: nth_append)
qed

lemma FieldsFrom_spaces:
  "\<forall>c\<in>set s. isAsciiSpace c \<Longrightarrow> strings_FieldsFrom [] s = []"
proof (induction s)
  case Nil
  then show ?case by (simp add: strings_FieldsFrom.simps)
next
  case (Cons c s)
  then have "spaceWidth (c # s) = 1" by (simp add: spaceWidth_def)
  with Cons show ?case by (subst strings_FieldsFrom.simps) simp
qed

lemma Fields_spaces: "\<forall>c\<in>set s. isAsciiSpace c \<Longrightarrow> strings_Fields s = []"
  by (simp add: strings_Fields_def FieldsFrom_spaces)

lemma spaceWidth_ascii: "isAsciiSpace c \<Longrightarrow> spaceWidth (c # s) = 1"
  by (simp add: spaceWidth_def)

lemma FieldsFrom_tokens:
  assumes "\<forall>c\<in>set cur. \<not> isAsciiSpace c" and "tok \<in> set (strings_FieldsFrom cur s)"
  shows "tok \<noteq> [] \<and> (\<forall>c\<in>set tok. \<not> isAsciiSpace c)"
  using assms
proof (induction cur s rule: strings_FieldsFrom.induct)
  case (1 cur s)
  have eq: "strings_FieldsFrom cur s =
     (if s = [] then (if cur = [] then [] else [cur])
      else if 0 < spaceWidth s
        then (if cur = [] then [] else [cur]) @ strings_FieldsFrom [] (drop (spaceWidth s) s)
      else strings_FieldsFrom (cur @ [hd s]) (tl s))"
    by (rule strings_FieldsFrom.simps)
  show ?case
  proof (cases "s = []")
    case True
    with "1.prems"(2) have "tok \<in> set (if cur = [] then [] else [cur])" unfolding eq by simp
    with "1.prems"(1) show ?thesis by (auto split: if_splits)
  next
    case ne: False
    show ?thesis
    proof (cases "0 < spaceWidth s")
      case True
      from "1.prems"(2) ne True have "tok \<in> set (if cur = [] then [] else [cur])
          \<or> tok \<in> set (strings_FieldsFrom [] (drop (spaceWidth s) s))"
        unfolding eq by auto
      then show ?thesis
      proof
        assume "tok \<in> set (if cur = [] then [] else [cur])"
        with "1.prems"(1) show ?thesis by (auto split: if_splits)
      next
        assume "tok \<in> set (strings_FieldsFrom [] (drop (spaceWidth s) s))"
        with "1.IH"(1)[OF ne True] show ?thesis by simp
      qed
    next
      case False
      from ne obtain c cs where s: "s = c # cs" by (cases s) auto
      have "\<not> isAsciiSpace c" using False s spaceWidth_ascii[of c cs] by auto
      with "1.prems"(1) s have cur': "\<forall>c\<in>set (cur @ [hd s]). \<not> isAsciiSpace c" by auto
      from "1.prems"(2) ne False have "tok \<in> set (strings_FieldsFrom (cur @ [hd s]) (tl s))"
        unfolding eq by simp
      from "1.IH"(2)[OF ne False cur' this] show ?thesis .
    qed
  qed
qed

lemma Fields_tokens:
  "tok \<in> set (strings_Fields s) \<Longrightarrow> tok \<noteq> [] \<and> (\<forall>c\<in>set tok. \<not> isAsciiSpace c)"
  unfolding strings_Fields_def using FieldsFrom_tokens[of "[]" tok s] by simp

subsection \<open>Array coercion\<close>

text \<open>
  Claim C3. For a type tag \<open>array:<subtype>\<close> the raw text is split by
  \<open>strings.Fields\<close> into tokens, which are not empty and hold no ASCII white space, and
  each token is coerced with the subtype. When the token at
  position \<open>i\<close> (counted from 0) fails with the error \<open>e\<close> and every token before
  it coerces, the coercion fails with \<open>array entry #i is invalid: e\<close>; so it fails
  whenever some token fails. A raw text with no tokens, in particular an empty one or
  one of ASCII white space only, gives the empty array and no error.
\<close>

theorem array_first_failing_token:
  assumes "Type sv = ''array:'' @ subType"
  shows "(\<forall>i e. i < length (strings_Fields (Value sv)) \<and>
             (\<forall>j<i. \<exists>v. toMMDBType pf subType (strings_Fields (Value sv) ! j) optim = Inr v) \<and>
             toMMDBType pf subType (strings_Fields (Value sv) ! i) optim = Inl e
           \<longrightarrow> ToMMDBType pf sv optim = Inl (ArrayEntryInvalid i e))
       \<and> ((\<exists>tok\<in>set (strings_Fields (Value sv)). \<exists>e. toMMDBType pf subType tok optim = Inl e)
           \<longrightarrow> (\<exists>i e. ToMMDBType pf sv optim = Inl (ArrayEntryInvalid i e)))
       \<and> (strings_Fields (Value sv) = [] \<longrightarrow> ToMMDBType pf sv optim = Inr (Slice []))
       \<and> ((\<forall>c\<in>set (Value sv). isAsciiSpace c) \<longrightarrow> ToMMDBType pf sv optim = Inr (Slice []))
       \<and> (\<forall>tok\<in>set (strings_Fields (Value sv)). tok \<noteq> [] \<and> (\<forall>c\<in>set tok. \<not> isAsciiSpace c))"
proof -
  let ?toks = "strings_Fields (Value sv)"
  have first: "\<forall>i e. i < length ?toks \<and>
             (\<forall>j<i. \<exists>v. toMMDBType pf subType (?toks ! j) optim = Inr v) \<and>
             toMMDBType pf subType (?toks ! i) optim = Inl e
           \<longrightarrow> ToMMDBType pf sv optim = Inl (ArrayEntryInvalid i e)"
  proof (intro allI impI)
    fix i e
    assume "i < length ?toks \<and>
          (\<forall>j<i. \<exists>v. toMMDBType pf subType (?toks ! j) optim = Inr v) \<and>
          toMMDBType pf subType (?toks ! i) optim = Inl e"
    then show "ToMMDBType pf sv optim = Inl (ArrayEntryInvalid i e)"
      using toMMDBArray_fail[of i "Value sv" pf subType optim e] assms
      by (simp add: ToMMDBType_array_tag)
  qed
  have some: "(\<exists>tok\<in>set ?toks. \<exists>e. toMMDBType pf subType tok optim = Inl e)
           \<longrightarrow> (\<exists>i e. ToMMDBType pf sv optim = Inl (ArrayEntryInvalid i e))"
  proof
    assume "\<exists>tok\<in>set ?toks. \<exists>e. toMMDBType pf subType tok optim = Inl e"
    from first_failing_token[OF this] obtain i e where
      "i < length ?toks"
      "\<forall>j<i. \<exists>v. toMMDBType pf subType (?toks ! j) optim = Inr v"
      "toMMDBType pf subType (?toks ! i) optim = Inl e" by blast
    then have "toMMDBArray pf subType (Value sv) optim = Inl (ArrayEntryInvalid i e)"
      by (rule toMMDBArray_fail)
    then show "\<exists>i e. ToMMDBType pf sv optim = Inl (ArrayEntryInvalid i e)"
      using assms by (auto simp: ToMMDBType_array_tag)
  qed
  have none: "?toks = [] \<longrightarrow> ToMMDBType pf sv optim = Inr (Slice [])"
    using assms by (simp add: ToMMDBType_array_tag toMMDBArray_empty)
  have blank: "(\<forall>c\<in>set (Value sv). isAsciiSpace c) \<longrightarrow> ToMMDBType pf sv optim = Inr (Slice [])"
  proof
    assume "\<forall>c\<in>set (Value sv). isAsciiSpace c"
    then have "?toks = []" by (rule Fields_spaces)
    with none show "ToMMDBType pf sv optim = Inr (Slice [])" by simp
  qed
  have toks: "\<forall>tok\<in>set ?toks. tok \<noteq> [] \<and> (\<forall>c\<in>set tok. \<not> isAsciiSpace c)"
    using Fields_tokens by blast
  from first some none blank toks show ?thesis by (intro conjI)
qed

lemma Fields_example: "strings_Fields ''1 2  x 4'' = [''1'', ''2'', ''x'', ''4'']"
  by code_simp

lemma uint16_example_ok:
  "s \<in> {''1'', ''2'', ''4''} \<Longrightarrow> \<exists>v. toMMDBType pf ''uint16'' s optim = Inr v"
  by (auto simp: toMMDBType_def strconv_ParseUint_def maxUint64_def)

lemma uint16_example_bad: "toMMDBType pf ''uint16'' ''x'' optim = Inl ErrSyntax"
  by (simp add: toMMDBType_def strconv_ParseUint_def)

theorem array_first_failing_token_witness:
  "Type \<lparr>Type = ''array:uint16'', Value = ''1 2  x 4''\<rparr> = ''array:'' @ ''uint16''
   \<and> 2 < length (strings_Fields ''1 2  x 4'')
   \<and> toMMDBType \<lparr>strconv_ParseFloat = \<lambda>s b. Inl ErrSyntax, math_Pow = \<lambda>x y. NaN\<rparr> ''uint16'' (strings_Fields ''1 2  x 4'' ! 2)
        \<lparr>FloatDecimals = 0, ForceIPVersion = False, MaxPrefix = 0\<rparr> = Inl ErrSyntax
   \<and> ToMMDBType \<lparr>strconv_ParseFloat = \<lambda>s b. Inl ErrSyntax, math_Pow = \<lambda>x y. NaN\<rparr> \<lparr>Type = ''array:uint16'', Value = ''1 2  x 4''\<rparr>
        \<lparr>FloatDecimals = 0, ForceIPVersion = False, MaxPrefix = 0\<rparr>
      = Inl (ArrayEntryInvalid 2 ErrSyntax)"
proof -
  let ?sv = "\<lparr>Type = ''array:uint16'', Value = ''1 2  x 4''\<rparr>"
  let ?pf = "\<lparr>strconv_ParseFloat = \<lambda>(s::string) (b::nat). (Inl ErrSyntax :: error + float64), math_Pow = \<lambda>(x::float64) (y::float64). NaN\<rparr>"
  let ?optim = "\<lparr>FloatDecimals = 0, ForceIPVersion = False, MaxPrefix = 0\<rparr>"
  have tag: "Type ?sv = ''array:'' @ ''uint16''" by simp
  have before: "\<forall>j<2. \<exists>v. toMMDBType ?pf ''uint16'' (strings_Fields (Value ?sv) ! j) ?optim = Inr v"
    by (auto simp: Fields_example less_Suc_eq numeral_2_eq_2 intro!: uint16_example_ok)
  have bad: "toMMDBType ?pf ''uint16'' (strings_Fields (Value ?sv) ! 2) ?optim = Inl ErrSyntax"
    by (simp add: Fields_example uint16_example_bad)
  have len: "2 < length (strings_Fields (Value ?sv))" by (simp add: Fields_example)
  from array_first_failing_token[OF tag, of ?pf ?optim] len before bad
  have "ToMMDBType ?pf ?sv ?optim = Inl (ArrayEntryInvalid 2 ErrSyntax)" by blast
  with len bad show ?thesis by simp
qed

text \<open>
  Claim C6. When the raw text of an array-typed field has N tokens and each coerces
  under the declared subtype, the coercion succeeds with an array of exactly N values,
  the value at each position being the coercion of the token at that position.
\<close>

theorem array_of_valid_tokens:
  assumes "Type sv = ''array:'' @ subType"
    and "\<forall>tok\<in>set (strings_Fields (Value sv)). \<exists>v. toMMDBType pf subType tok optim = Inr v"
  shows "\<exists>vs. ToMMDBType pf sv optim = Inr (Slice vs)
           \<and> length vs = length (strings_Fields (Value sv))
           \<and> (\<forall>i<length vs. toMMDBType pf subType (strings_Fields (Value sv) ! i) optim = Inr (vs ! i))"
proof -
  let ?toks = "strings_Fields (Value sv)"
  let ?vs = "map (\<lambda>tok. projr (toMMDBType pf subType tok optim)) ?toks"
  have "toMMDBArray pf subType (Value sv) optim = Inr (Slice ?vs)"
    using toMMDBArrayLoop_ok[OF assms(2), of 0 "[]"] by (simp add: toMMDBArray_def)
  then have r: "ToMMDBType pf sv optim = Inr (Slice ?vs)"
    using assms(1) by (simp add: ToMMDBType_array_tag)
  have "\<forall>i<length ?vs. toMMDBType pf subType (?toks ! i) optim = Inr (?vs ! i)"
  proof (intro allI impI)
    fix i assume "i < length ?vs"
    then have "?toks ! i \<in> set ?toks" by simp
    with assms(2) obtain v where "toMMDBType pf subType (?toks ! i) optim = Inr v" by blast
    with \<open>i < length ?vs\<close> show "toMMDBType pf subType (?toks ! i) optim = Inr (?vs ! i)" by simp
  qed
  with r show ?thesis by (intro exI[of _ ?vs]) simp
qed

lemma Fields_example_valid: "strings_Fields '' 7  65535 0'' = [''7'', ''65535'', ''0'']"
  by code_simp

lemma uint16_example_values:
  "toMMDBType pf ''uint16'' ''7'' optim = Inr (Uint16 7)"
  "toMMDBType pf ''uint16'' ''65535'' optim = Inr (Uint16 65535)"
  "toMMDBType pf ''uint16'' ''0'' optim = Inr (Uint16 0)"
  by (simp_all add: toMMDBType_def strconv_ParseUint_def maxUint64_def)

theorem array_of_valid_tokens_witness:
  "ToMMDBType \<lparr>strconv_ParseFloat = \<lambda>s b. Inl ErrSyntax, math_Pow = \<lambda>x y. NaN\<rparr> \<lparr>Type = ''array:uint16'', Value = '' 7  65535 0''\<rparr>
     \<lparr>FloatDecimals = 0, ForceIPVersion = False, MaxPrefix = 0\<rparr>
   = Inr (Slice [Uint16 7, Uint16 65535, Uint16 0])"
proof -
  let ?sv = "\<lparr>Type = ''array:uint16'', Value = '' 7  65535 0''\<rparr>"
  let ?pf = "\<lparr>strconv_ParseFloat = \<lambda>(s::string) (b::nat). (Inl ErrSyntax :: error + float64), math_Pow = \<lambda>(x::float64) (y::float64). NaN\<rparr>"
  let ?optim = "\<lparr>FloatDecimals = 0, ForceIPVersion = False, MaxPrefix = 0\<rparr>"
  have tag: "Type ?sv = ''array:'' @ ''uint16''" by simp
  have ok: "\<forall>tok\<in>set (strings_Fields (Value ?sv)). \<exists>v. toMMDBType ?pf ''uint16'' tok ?optim = Inr v"
    by (auto simp: Fields_example_valid uint16_example_values)
  from array_of_valid_tokens[OF tag ok] obtain vs where
    r: "ToMMDBType ?pf ?sv ?optim = Inr (Slice vs)" and l: "length vs = 3"
    and e: "\<forall>i<length vs. toMMDBType ?pf ''uint16'' (strings_Fields (Value ?sv) ! i) ?optim = Inr (vs ! i)"
    by (auto simp: Fields_example_valid)
  from e[rule_format, of 0] e[rule_format, of 1] e[rule_format, of 2] l
  have "vs ! 0 = Uint16 7" "vs ! 1 = Uint16 65535" "vs ! 2 = Uint16 0"
    by (simp_all add: Fields_example_valid uint16_example_values)
  with l have "vs = [Uint16 7, Uint16 65535, Uint16 0]"
    by (cases vs; cases "tl vs"; cases "tl (tl vs)") auto
  with r show ?thesis by simp
qed

text \<open>
  Claim C8, as amended. A successfully coerced array value comes from a tag
  \<open>array:<subtype>\<close> and each of its elements is a scalar of that one subtype, so
  it holds no nested array. A tag \<open>array:array:<t>\<close> fails, the subtype
  \<open>array:<t>\<close> being rejected as an unsupported type at token 0, when the raw
  text has a token; when it has none, the coercion succeeds with the empty array.
\<close>

theorem array_elements_scalar:
  "(ToMMDBType pf sv optim = Inr (Slice vs) \<longrightarrow>
      (\<exists>subType. Type sv = ''array:'' @ subType \<and> (\<forall>e\<in>set vs. scalarTag e = Some subType)))
   \<and> (strings_Fields raw \<noteq> [] \<longrightarrow>
        ToMMDBType pf \<lparr>Type = ''array:array:'' @ t, Value = raw\<rparr> optim
          = Inl (ArrayEntryInvalid 0 UnsupportType))
   \<and> (strings_Fields raw = [] \<longrightarrow>
        ToMMDBType pf \<lparr>Type = ''array:array:'' @ t, Value = raw\<rparr> optim = Inr (Slice []))"
proof (intro conjI impI)
  assume r: "ToMMDBType pf sv optim = Inr (Slice vs)"
  with ToMMDBType_cases[of sv pf optim] toMMDBType_not_Slice
  obtain sub where tag: "Type sv = ''array:'' @ sub"
    and a: "toMMDBArray pf sub (Value sv) optim = Inr (Slice vs)" by metis
  from toMMDBArray_Inr[OF a]
  have el: "\<forall>j<length vs. toMMDBType pf sub (strings_Fields (Value sv) ! j) optim = Inr (vs ! j)"
    by simp
  have "\<forall>e\<in>set vs. scalarTag e = Some sub"
  proof
    fix e assume "e \<in> set vs"
    then obtain j where "j < length vs" "vs ! j = e" by (auto simp: in_set_conv_nth)
    with el have "toMMDBType pf sub (strings_Fields (Value sv) ! j) optim = Inr e" by auto
    then show "scalarTag e = Some sub" by (rule toMMDBType_scalarTag)
  qed
  with tag show "\<exists>subType. Type sv = ''array:'' @ subType \<and> (\<forall>e\<in>set vs. scalarTag e = Some subType)"
    by blast
next
  let ?sv = "\<lparr>Type = ''array:array:'' @ t, Value = raw\<rparr>"
  have tag: "Type ?sv = ''array:'' @ (''array:'' @ t)" by simp
  have bad: "\<And>s. toMMDBType pf (''array:'' @ t) s optim = Inl UnsupportType"
    by (rule toMMDBType_unsupported) (simp add: scalarTypes_def)
  {
    assume "strings_Fields raw \<noteq> []"
    then have "0 < length (strings_Fields (Value ?sv))" by simp
    then have "toMMDBArray pf (''array:'' @ t) (Value ?sv) optim = Inl (ArrayEntryInvalid 0 UnsupportType)"
      by (rule toMMDBArray_fail) (simp_all add: bad del: append.simps)
    then show "ToMMDBType pf ?sv optim = Inl (ArrayEntryInvalid 0 UnsupportType)"
      unfolding ToMMDBType_array_tag[OF tag] .
  }
  {
    assume "strings_Fields raw = []"
    then have "toMMDBArray pf (''array:'' @ t) (Value ?sv) optim = Inr (Slice [])"
      by (simp add: toMMDBArray_empty)
    then show "ToMMDBType pf ?sv optim = Inr (Slice [])"
      unfolding ToMMDBType_array_tag[OF tag] .
  }
qed

lemma Fields_example_strings: "strings_Fields ''x y'' = [''x'', ''y'']"
  by code_simp

lemma Fields_example_empty: "strings_Fields '''' = []"
  by code_simp

theorem array_elements_scalar_witness:
  "ToMMDBType \<lparr>strconv_ParseFloat = \<lambda>s b. Inl ErrSyntax, math_Pow = \<lambda>x y. NaN\<rparr> \<lparr>Type = ''array:string'', Value = ''x y''\<rparr>
      \<lparr>FloatDecimals = 0, ForceIPVersion = False, MaxPrefix = 0\<rparr> = Inr (Slice [String ''x'', String ''y''])
   \<and> (\<exists>subType. Type \<lparr>Type = ''array:string'', Value = ''x y''\<rparr> = ''array:'' @ subType
         \<and> scalarTag (String ''x'') = Some subType \<and> scalarTag (String ''y'') = Some subType)
   \<and> strings_Fields ''x y'' \<noteq> []
   \<and> ToMMDBType \<lparr>strconv_ParseFloat = \<lambda>s b. Inl ErrSyntax, math_Pow = \<lambda>x y. NaN\<rparr> \<lparr>Type = ''array:array:'' @ ''string'', Value = ''x y''\<rparr>
        \<lparr>FloatDecimals = 0, ForceIPVersion = False, MaxPrefix = 0\<rparr>
      = Inl (ArrayEntryInvalid 0 UnsupportType)"
proof -
  let ?sv = "\<lparr>Type = ''array:string'', Value = ''x y''\<rparr>"
  let ?pf = "\<lparr>strconv_ParseFloat = \<lambda>(s::string) (b::nat). (Inl ErrSyntax :: error + float64), math_Pow = \<lambda>(x::float64) (y::float64). NaN\<rparr>"
  let ?optim = "\<lparr>FloatDecimals = 0, ForceIPVersion = False, MaxPrefix = 0\<rparr>"
  have "Type ?sv = ''array:'' @ ''string''" by simp
  then have "ToMMDBType ?pf ?sv ?optim = toMMDBArray ?pf ''string'' (Value ?sv) ?optim"
    by (rule ToMMDBType_array_tag)
  then have r: "ToMMDBType ?pf ?sv ?optim = Inr (Slice [String ''x'', String ''y''])"
    by (simp add: toMMDBArray_def Fields_example_strings toMMDBType_def)
  have f: "strings_Fields ''x y'' \<noteq> []" by (simp add: Fields_example_strings)
  note t = array_elements_scalar[of ?pf ?sv ?optim "[String ''x'', String ''y'']" "''x y''" "''string''"]
  from t r have "\<exists>subType. Type ?sv = ''array:'' @ subType
         \<and> scalarTag (String ''x'') = Some subType \<and> scalarTag (String ''y'') = Some subType"
    by auto
  moreover from t f have "ToMMDBType ?pf \<lparr>Type = ''array:array:'' @ ''string'', Value = ''x y''\<rparr> ?optim
      = Inl (ArrayEntryInvalid 0 UnsupportType)" by blast
  ultimately show ?thesis using r f by blast
qed

theorem nested_array_tag_counterexample:
  "ToMMDBType \<lparr>strconv_ParseFloat = \<lambda>s b. Inl ErrSyntax, math_Pow = \<lambda>x y. NaN\<rparr> \<lparr>Type = ''array:array:string'', Value = ''''\<rparr>
      \<lparr>FloatDecimals = 0, ForceIPVersion = False, MaxPrefix = 0\<rparr> = Inr (Slice [])"
proof -
  have "Type \<lparr>Type = ''array:array:string'', Value = ''''\<rparr> = ''array:'' @ ''array:string''"
    by simp
  from ToMMDBType_array_tag[OF this] show ?thesis
    by (simp add: toMMDBArray_empty Fields_example_empty)
qed

text \<open>
  Claim C9, as amended. A type tag that is not a supported scalar tag and does not
  start with \<open>array:\<close> fails with the unsupported-type error for every raw text. A
  tag \<open>array:<subtype>\<close> with an unsupported subtype fails when the raw text has a
  token, the unsupported-type error being the cause reported for token 0; when the raw
  text has no token the coercion succeeds with the empty array.
\<close>

theorem unsupported_type_tag:
  "(t \<notin> scalarTypes \<and> \<not> strings_HasPrefix t ''array:'' \<longrightarrow>
      ToMMDBType pf \<lparr>Type = t, Value = raw\<rparr> optim = Inl UnsupportType)
   \<and> (subType \<notin> scalarTypes \<longrightarrow>
        ToMMDBType pf \<lparr>Type = ''array:'' @ subType, Value = raw\<rparr> optim
          = (if strings_Fields raw = [] then Inr (Slice [])
             else Inl (ArrayEntryInvalid 0 UnsupportType)))"
proof (intro conjI impI)
  assume "t \<notin> scalarTypes \<and> \<not> strings_HasPrefix t ''array:''"
  then show "ToMMDBType pf \<lparr>Type = t, Value = raw\<rparr> optim = Inl UnsupportType"
    by (simp add: ToMMDBType_not_array toMMDBType_unsupported)
next
  let ?sv = "\<lparr>Type = ''array:'' @ subType, Value = raw\<rparr>"
  assume u: "subType \<notin> scalarTypes"
  have tag: "Type ?sv = ''array:'' @ subType" by simp
  have "toMMDBArray pf subType (Value ?sv) optim
          = (if strings_Fields raw = [] then Inr (Slice []) else Inl (ArrayEntryInvalid 0 UnsupportType))"
  proof (cases "strings_Fields raw = []")
    case True
    then show ?thesis by (simp add: toMMDBArray_empty)
  next
    case False
    then have "0 < length (strings_Fields (Value ?sv))" by simp
    then have "toMMDBArray pf subType (Value ?sv) optim = Inl (ArrayEntryInvalid 0 UnsupportType)"
      by (rule toMMDBArray_fail) (simp_all add: toMMDBType_unsupported[OF u])
    with False show ?thesis by simp
  qed
  then show "ToMMDBType pf ?sv optim
          = (if strings_Fields raw = [] then Inr (Slice []) else Inl (ArrayEntryInvalid 0 UnsupportType))"
    unfolding ToMMDBType_array_tag[OF tag] .
qed

lemma Fields_example_one: "strings_Fields ''10.0.0.1'' = [''10.0.0.1'']"
  by code_simp

theorem unsupported_type_tag_witness:
  "''ipaddr'' \<notin> scalarTypes \<and> \<not> strings_HasPrefix ''ipaddr'' ''array:''
   \<and> ToMMDBType \<lparr>strconv_ParseFloat = \<lambda>s b. Inl ErrSyntax, math_Pow = \<lambda>x y. NaN\<rparr> \<lparr>Type = ''ipaddr'', Value = ''10.0.0.1''\<rparr>
        \<lparr>FloatDecimals = 0, ForceIPVersion = False, MaxPrefix = 0\<rparr> = Inl UnsupportType
   \<and> ToMMDBType \<lparr>strconv_ParseFloat = \<lambda>s b. Inl ErrSyntax, math_Pow = \<lambda>x y. NaN\<rparr> \<lparr>Type = ''array:'' @ ''ipaddr'', Value = ''10.0.0.1''\<rparr>
        \<lparr>FloatDecimals = 0, ForceIPVersion = False, MaxPrefix = 0\<rparr>
      = Inl (ArrayEntryInvalid 0 UnsupportType)"
proof -
  have a: "''ipaddr'' \<notin> scalarTypes" by (simp add: scalarTypes_def)
  have b: "\<not> strings_HasPrefix ''ipaddr'' ''array:''" by (simp add: strings_HasPrefix_def)
  from a b unsupported_type_tag[of "''ipaddr''" "\<lparr>strconv_ParseFloat = \<lambda>s b. Inl ErrSyntax, math_Pow = \<lambda>x y. NaN\<rparr>" "''10.0.0.1''"
      "\<lparr>FloatDecimals = 0, ForceIPVersion = False, MaxPrefix = 0\<rparr>" "''ipaddr''"]
  show ?thesis by (simp add: Fields_example_one)
qed

lemma Fields_example_blank: "strings_Fields '' '' = []"
  by code_simp

theorem unsupported_array_subtype_counterexample:
  "''array:ipaddr'' \<notin> scalarTypes \<and> ''ipaddr'' \<notin> scalarTypes
   \<and> ToMMDBType \<lparr>strconv_ParseFloat = \<lambda>s b. Inl ErrSyntax, math_Pow = \<lambda>x y. NaN\<rparr> \<lparr>Type = ''array:ipaddr'', Value = '' ''\<rparr>
      \<lparr>FloatDecimals = 0, ForceIPVersion = False, MaxPrefix = 0\<rparr> = Inr (Slice [])"
proof -
  have "Type \<lparr>Type = ''array:ipaddr'', Value = '' ''\<rparr> = ''array:'' @ ''ipaddr''"
    by simp
  from ToMMDBType_array_tag[OF this] show ?thesis
    by (simp add: toMMDBArray_empty Fields_example_blank scalarTypes_def)
qed

subsection \<open>Integer coercion\<close>


lemma digitsValue_Nil [simp]: "digitsValue n [] = n"
  by (simp add: digitsValue_def)

lemma digitsValue_Cons [simp]: "digitsValue n (c # cs) = digitsValue (10 * n + (of_char c - 48)) cs"
  by (simp add: digitsValue_def)

lemma digitsValue_ge: "n \<le> digitsValue n ds"
proof (induction ds arbitrary: n)
  case Nil
  show ?case by simp
next
  case (Cons c ds)
  have "n \<le> 10 * n + (of_char c - 48)" by simp
  also have "\<dots> \<le> digitsValue (10 * n + (of_char c - 48)) ds" by (rule Cons.IH)
  finally show ?case by simp
qed

lemma ParseUintLoop_nondigit:
  "\<not> list_all isDigit cs \<Longrightarrow> \<exists>e. strconv_ParseUintLoop maxVal cs n = Inl e"
proof (induction cs arbitrary: n)
  case Nil
  then show ?case by simp
next
  case (Cons c cs)
  show ?case
  proof (cases "isDigit c")
    case False
    then show ?thesis by (simp add: isDigit_def Let_def)
  next
    case True
    with Cons.prems have "\<not> list_all isDigit cs" by simp
    from Cons.IH[OF this] show ?thesis by (auto simp: Let_def)
  qed
qed

lemma ParseUintLoop_step:
  "isDigit c \<Longrightarrow>
   strconv_ParseUintLoop maxVal (c # cs) n =
     (if n \<ge> maxUint64 div 10 + 1 then Inl ErrRange
      else if (n * 10 + (of_char c - 48)) mod 2 ^ 64 < n * 10
              \<or> (n * 10 + (of_char c - 48)) mod 2 ^ 64 > maxVal then Inl ErrRange
      else strconv_ParseUintLoop maxVal cs ((n * 10 + (of_char c - 48)) mod 2 ^ 64))"
  by (simp add: isDigit_def Let_def)

lemma ParseUintLoop_digits:
  assumes "list_all isDigit cs" and "n \<le> maxVal" and "maxVal \<le> maxUint64"
  shows "strconv_ParseUintLoop maxVal cs n =
           (if digitsValue n cs \<le> maxVal then Inr (digitsValue n cs) else Inl ErrRange)"
  using assms
proof (induction cs arbitrary: n)
  case Nil
  then show ?case by simp
next
  case (Cons c cs)
  define d where "d = (of_char c :: nat) - 48"
  from Cons.prems(1) have rest: "list_all isDigit cs" and c: "isDigit c" by simp_all
  from c have d9: "d \<le> 9" unfolding d_def isDigit_def by arith
  have st: "strconv_ParseUintLoop maxVal (c # cs) n =
     (if n \<ge> maxUint64 div 10 + 1 then Inl ErrRange
      else if (n * 10 + d) mod 2 ^ 64 < n * 10 \<or> (n * 10 + d) mod 2 ^ 64 > maxVal then Inl ErrRange
      else strconv_ParseUintLoop maxVal cs ((n * 10 + d) mod 2 ^ 64))"
    unfolding d_def using c by (rule ParseUintLoop_step)
  have dv: "digitsValue n (c # cs) = digitsValue (n * 10 + d) cs"
    unfolding d_def by (simp add: mult.commute)
  have ge: "n * 10 + d \<le> digitsValue (n * 10 + d) cs" by (rule digitsValue_ge)
  have mx: "maxUint64 = 18446744073709551615" by (simp add: maxUint64_def)
  show ?case
  proof (cases "n \<ge> maxUint64 div 10 + 1")
    case True
    then have "n * 10 + d > maxVal" using Cons.prems(3) mx by simp
    with ge have "\<not> digitsValue (n * 10 + d) cs \<le> maxVal" by simp
    with True show ?thesis unfolding st dv by simp
  next
    case small: False
    then have n10: "n * 10 \<le> 18446744073709551610" using mx by simp
    show ?thesis
    proof (cases "n * 10 + d < 2 ^ 64")
      case True
      then have m: "(n * 10 + d) mod 2 ^ 64 = n * 10 + d" by simp
      show ?thesis
      proof (cases "n * 10 + d > maxVal")
        case True
        with ge have "\<not> digitsValue (n * 10 + d) cs \<le> maxVal" by simp
        with small True show ?thesis unfolding st dv m by simp
      next
        case False
        then have "n * 10 + d \<le> maxVal" by simp
        from Cons.IH[OF rest this Cons.prems(3)] small False show ?thesis
          unfolding st dv m by simp
      qed
    next
      case False
      then have big: "2 ^ 64 \<le> n * 10 + d" by simp
      then have "(n * 10 + d) mod 2 ^ 64 = n * 10 + d - 2 ^ 64"
        using n10 d9 by (simp add: mod_if)
      then have m: "(n * 10 + d) mod 2 ^ 64 < n * 10" using n10 d9 big by simp
      have "digitsValue (n * 10 + d) cs > maxVal" using ge big Cons.prems(3) mx by simp
      then have "\<not> digitsValue (n * 10 + d) cs \<le> maxVal" by simp
      with small m show ?thesis unfolding st dv by simp
    qed
  qed
qed

lemma ParseUint_Inr_iff:
  assumes "bitSize \<le> 64"
  shows "strconv_ParseUint s bitSize = Inr n \<longleftrightarrow>
           s \<noteq> [] \<and> list_all isDigit s \<and> digitsValue 0 s = n \<and> n < 2 ^ bitSize"
proof (cases "s \<noteq> [] \<and> list_all isDigit s")
  case True
  have "(2::nat) ^ bitSize \<le> 2 ^ 64" by (rule power_increasing) (use assms in simp_all)
  then have "(2::nat) ^ bitSize - 1 \<le> maxUint64"
    unfolding maxUint64_def by (rule diff_le_mono)
  with True have "strconv_ParseUint s bitSize =
     (if digitsValue 0 s \<le> 2 ^ bitSize - 1 then Inr (digitsValue 0 s) else Inl ErrRange)"
    by (simp add: strconv_ParseUint_def ParseUintLoop_digits)
  moreover have "digitsValue 0 s \<le> 2 ^ bitSize - 1 \<longleftrightarrow> digitsValue 0 s < 2 ^ bitSize"
    by (metis Suc_pred' less_Suc_eq_le zero_less_numeral zero_less_power)
  ultimately show ?thesis using True by auto
next
  case False
  then have "\<exists>e. strconv_ParseUint s bitSize = Inl e"
    using ParseUintLoop_nondigit by (auto simp: strconv_ParseUint_def)
  with False show ?thesis by auto
qed


lemma ParseUint_digits:
  assumes "s \<noteq> []" and "list_all isDigit s" and "bitSize \<le> 64"
  shows "strconv_ParseUint s bitSize =
     (if digitsValue 0 s < 2 ^ bitSize then Inr (digitsValue 0 s) else Inl ErrRange)"
proof -
  have "(2::nat) ^ bitSize \<le> 2 ^ 64" by (rule power_increasing) (use assms in simp_all)
  then have "(2::nat) ^ bitSize - 1 \<le> maxUint64"
    unfolding maxUint64_def by (rule diff_le_mono)
  with assms have "strconv_ParseUint s bitSize =
     (if digitsValue 0 s \<le> 2 ^ bitSize - 1 then Inr (digitsValue 0 s) else Inl ErrRange)"
    by (simp add: strconv_ParseUint_def ParseUintLoop_digits)
  moreover have "digitsValue 0 s \<le> 2 ^ bitSize - 1 \<longleftrightarrow> digitsValue 0 s < 2 ^ bitSize"
    by (metis Suc_pred' less_Suc_eq_le zero_less_numeral zero_less_power)
  ultimately show ?thesis by simp
qed

lemma ParseUint_not_digits:
  "s = [] \<or> \<not> list_all isDigit s \<Longrightarrow> \<exists>e. strconv_ParseUint s bitSize = Inl e"
  using ParseUintLoop_nondigit by (auto simp: strconv_ParseUint_def)

lemma isDigit_not_sign: "isDigit c \<Longrightarrow> c \<noteq> CHR ''-'' \<and> c \<noteq> CHR ''+''"
  by (auto simp: isDigit_def)

lemma ParseInt_unfold:
  "strconv_ParseInt (c # cs) bitSize =
     (let neg = (c = CHR ''-'');
          s1 = (if c = CHR ''+'' \<or> c = CHR ''-'' then cs else c # cs);
          r = strconv_ParseUint s1 bitSize
      in if r = Inl ErrSyntax then Inl ErrSyntax
         else let un = (case r of Inr u \<Rightarrow> u | Inl _ \<Rightarrow> 2 ^ bitSize - 1);
                  cutoff = (2::nat) ^ (bitSize - 1)
              in if \<not> neg \<and> un \<ge> cutoff then Inl ErrRange
                 else if neg \<and> un > cutoff then Inl ErrRange
                 else Inr (if neg then - int un else int un))"
  by (simp add: strconv_ParseInt_def Let_def)

lemma cutoff_less_maxVal:
  assumes "2 \<le> bitSize"
  shows "(2::nat) ^ (bitSize - 1) < 2 ^ bitSize - 1"
proof -
  from assms obtain k where k: "bitSize = Suc (Suc k)" by (metis add_2_eq_Suc le_Suc_ex)
  define n where "n = (2::nat) ^ k"
  have "1 \<le> n" by (simp add: n_def)
  then have "2 * n < 4 * n - 1" by arith
  then show ?thesis unfolding k n_def by simp
qed

lemma ParseInt_ParseUint_error:
  assumes "2 \<le> bitSize"
    and s1: "s1 = (if c = CHR ''+'' \<or> c = CHR ''-'' then cs else c # cs)"
    and e: "strconv_ParseUint s1 bitSize = Inl e"
  shows "\<exists>e'. strconv_ParseInt (c # cs) bitSize = Inl e'"
  using cutoff_less_maxVal[OF assms(1)]
  unfolding ParseInt_unfold s1[symmetric] Let_def e by auto

lemma ParseInt_after_sign:
  assumes "2 \<le> bitSize" "bitSize \<le> 64"
    and s1: "s1 = (if c = CHR ''+'' \<or> c = CHR ''-'' then cs else c # cs)"
  shows "strconv_ParseInt (c # cs) bitSize = Inr n \<longleftrightarrow>
     s1 \<noteq> [] \<and> list_all isDigit s1 \<and>
     n = (if c = CHR ''-'' then - int (digitsValue 0 s1) else int (digitsValue 0 s1)) \<and>
     - (2 ^ (bitSize - 1)) \<le> n \<and> n < 2 ^ (bitSize - 1)"
proof (cases "s1 \<noteq> [] \<and> list_all isDigit s1")
  case False
  then obtain e where e: "strconv_ParseUint s1 bitSize = Inl e"
    using ParseUint_not_digits by blast
  from ParseInt_ParseUint_error[OF assms(1) s1 e] False show ?thesis by auto
next
  case True
  define dv where "dv = digitsValue 0 s1"
  define cutoff where "cutoff = (2::nat) ^ (bitSize - 1)"
  have cb: "cutoff < 2 ^ bitSize" unfolding cutoff_def
    using cutoff_less_maxVal[OF assms(1)] by linarith
  have r: "strconv_ParseUint s1 bitSize = (if dv < 2 ^ bitSize then Inr dv else Inl ErrRange)"
    unfolding dv_def using True assms(2) by (simp add: ParseUint_digits)
  have ic: "(2::int) ^ (bitSize - 1) = int cutoff" by (simp add: cutoff_def)
  have cpos: "0 < cutoff" by (simp add: cutoff_def)
  show ?thesis
  proof (cases "dv < 2 ^ bitSize")
    case lt: True
    then have "strconv_ParseInt (c # cs) bitSize =
        (if c \<noteq> CHR ''-'' \<and> dv \<ge> cutoff then Inl ErrRange
         else if c = CHR ''-'' \<and> dv > cutoff then Inl ErrRange
         else Inr (if c = CHR ''-'' then - int dv else int dv))"
      unfolding ParseInt_unfold s1[symmetric] Let_def r cutoff_def by simp
    then show ?thesis using True cpos unfolding dv_def[symmetric] ic by auto
  next
    case ge: False
    then have e: "strconv_ParseUint s1 bitSize = Inl ErrRange" by (simp add: r)
    from ParseInt_ParseUint_error[OF assms(1) s1 e]
    obtain e' where "strconv_ParseInt (c # cs) bitSize = Inl e'" ..
    moreover have "dv > cutoff" using ge cb by simp
    ultimately show ?thesis using True unfolding dv_def[symmetric] ic by auto
  qed
qed

lemma ParseInt_Inr_iff:
  assumes "2 \<le> bitSize" "bitSize \<le> 64"
  shows "strconv_ParseInt s bitSize = Inr n \<longleftrightarrow>
     numericValue s = Some n \<and> - (2 ^ (bitSize - 1)) \<le> n \<and> n < 2 ^ (bitSize - 1)"
proof (cases s)
  case Nil
  then show ?thesis by (simp add: strconv_ParseInt_def numericValue_def)
next
  case (Cons c cs)
  show ?thesis
  proof (cases "c = CHR ''+'' \<or> c = CHR ''-''")
    case True
    then show ?thesis
      unfolding Cons ParseInt_after_sign[OF assms refl]
      by (auto simp: numericValue_def)
  next
    case False
    from False show ?thesis
      unfolding Cons ParseInt_after_sign[OF assms refl]
      by (auto simp: numericValue_def)
  qed
qed

text \<open>
  The range error of \<open>ParseUint\<close> comes at the digit that leaves the range, before
  the rest of the text is read: the text \<open>4294967296x\<close> is out of range for
  \<open>int32\<close>, not a syntax error.
\<close>

lemma ParseInt_range_before_syntax:
  "strconv_ParseInt ''4294967296x'' 32 = Inl ErrRange"
  by (simp add: strconv_ParseInt_def strconv_ParseUint_def maxUint64_def)

lemma ParseUint_numericValue:
  assumes "bitSize \<le> 64" and "strconv_ParseUint s bitSize = Inr u"
  shows "numericValue s = Some (int u) \<and> u < 2 ^ bitSize"
proof -
  from assms have s: "s \<noteq> []" "list_all isDigit s" "digitsValue 0 s = u" "u < 2 ^ bitSize"
    by (simp_all add: ParseUint_Inr_iff)
  then obtain c cs where cs: "s = c # cs" by (cases s) auto
  with s(2) have "isDigit c" by simp
  then have "c \<noteq> CHR ''-'' \<and> c \<noteq> CHR ''+''" by (rule isDigit_not_sign)
  with s cs show ?thesis by (simp add: numericValue_def)
qed

lemma ParseUint_out_of_range:
  assumes "bitSize \<le> 64" and "numericValue s = Some n" and "n < 0 \<or> 2 ^ bitSize \<le> n"
  shows "\<exists>e. strconv_ParseUint s bitSize = Inl e"
proof (cases "strconv_ParseUint s bitSize")
  case (Inl e)
  then show ?thesis by blast
next
  case (Inr u)
  from ParseUint_numericValue[OF assms(1) Inr] assms(2,3) show ?thesis by auto
qed


lemma uint_of_nat_small:
  "u < 2 ^ LENGTH('a) \<Longrightarrow> uint (word_of_nat u :: 'a::len word) = int u"
  by (simp add: unsigned_of_nat take_bit_nat_eq_self)

lemma sint_of_int_small:
  "- (2 ^ (LENGTH('a) - 1)) \<le> n \<Longrightarrow> n < 2 ^ (LENGTH('a) - 1) \<Longrightarrow>
   sint (word_of_int n :: 'a::len word) = n"
  by (simp add: signed_of_int signed_take_bit_int_eq_self)

text \<open>
  Claim C5. For each integer type (\<open>int32\<close>, \<open>uint16\<close>, \<open>uint32\<close>,
  \<open>uint64\<close>) with range \<open>lo\<close> to \<open>hi\<close>: a raw text whose numeric value
  lies outside the range (a negative value for an unsigned type included) fails to
  coerce; and when the coercion succeeds, the typed value holds exactly the numeric value
  of the text, which lies in the range, so nothing is truncated.
\<close>

theorem integer_range_enforced:
  assumes "intRange t = Some (lo, hi)"
  shows "(numericValue s = Some n \<and> (n < lo \<or> hi < n) \<longrightarrow> (\<exists>e. toMMDBType pf t s optim = Inl e))
       \<and> (toMMDBType pf t s optim = Inr v \<longrightarrow>
            numericValue s = Some (intValue v) \<and> lo \<le> intValue v \<and> intValue v \<le> hi
            \<and> scalarTag v = Some t)"
proof -
  from assms consider
      (i32) "t = ''int32''" "lo = - (2 ^ 31)" "hi = 2 ^ 31 - 1"
    | (u16) "t = ''uint16''" "lo = 0" "hi = 2 ^ 16 - 1"
    | (u32) "t = ''uint32''" "lo = 0" "hi = 2 ^ 32 - 1"
    | (u64) "t = ''uint64''" "lo = 0" "hi = 2 ^ 64 - 1"
    by (auto simp: intRange_def split: if_splits)
  then show ?thesis
  proof cases
    case i32
    have co: "toMMDBType pf t s optim =
       (case strconv_ParseInt s 32 of Inl err \<Rightarrow> Inl err | Inr v \<Rightarrow> Inr (Int32 (word_of_int v)))"
      by (simp add: toMMDBType_def i32)
    have iff: "\<And>k. strconv_ParseInt s 32 = Inr k \<longleftrightarrow>
        numericValue s = Some k \<and> - (2 ^ 31) \<le> k \<and> k < 2 ^ 31"
      using ParseInt_Inr_iff[of 32 s] by simp
    show ?thesis
    proof (rule conjI; rule impI)
      assume a: "numericValue s = Some n \<and> (n < lo \<or> hi < n)"
      show "\<exists>e. toMMDBType pf t s optim = Inl e"
      proof (cases "strconv_ParseInt s 32")
        case (Inl e)
        then show ?thesis by (simp add: co)
      next
        case (Inr k)
        with iff[of k] a i32 show ?thesis by auto
      qed
    next
      assume r: "toMMDBType pf t s optim = Inr v"
      then obtain k where k: "strconv_ParseInt s 32 = Inr k" and v: "v = Int32 (word_of_int k)"
        by (auto simp: co split: sum.splits)
      from k iff[of k] have nk: "numericValue s = Some k" "- (2 ^ 31) \<le> k" "k < 2 ^ 31" by auto
      then have "sint (word_of_int k :: 32 word) = k" by (simp add: sint_of_int_small)
      with nk v i32 show "numericValue s = Some (intValue v) \<and> lo \<le> intValue v \<and> intValue v \<le> hi
            \<and> scalarTag v = Some t" by simp
    qed
  next
    case u16
    have co: "toMMDBType pf t s optim =
       (case strconv_ParseUint s 16 of Inl err \<Rightarrow> Inl err | Inr v \<Rightarrow> Inr (Uint16 (word_of_nat v)))"
      by (simp add: toMMDBType_def u16)
    show ?thesis
    proof (rule conjI; rule impI)
      assume a: "numericValue s = Some n \<and> (n < lo \<or> hi < n)"
      then have "\<exists>e. strconv_ParseUint s 16 = Inl e"
        using ParseUint_out_of_range[of 16 s n] u16 by auto
      then show "\<exists>e. toMMDBType pf t s optim = Inl e" by (auto simp: co)
    next
      assume r: "toMMDBType pf t s optim = Inr v"
      then obtain u where u: "strconv_ParseUint s 16 = Inr u" and v: "v = Uint16 (word_of_nat u)"
        by (auto simp: co split: sum.splits)
      from ParseUint_numericValue[OF _ u] have nu: "numericValue s = Some (int u)" "u < 2 ^ 16"
        by simp_all
      then have "uint (word_of_nat u :: 16 word) = int u" by (simp add: uint_of_nat_small)
      with nu v u16 show "numericValue s = Some (intValue v) \<and> lo \<le> intValue v \<and> intValue v \<le> hi
            \<and> scalarTag v = Some t" by simp
    qed
  next
    case u32
    have co: "toMMDBType pf t s optim =
       (case strconv_ParseUint s 32 of Inl err \<Rightarrow> Inl err | Inr v \<Rightarrow> Inr (Uint32 (word_of_nat v)))"
      by (simp add: toMMDBType_def u32)
    show ?thesis
    proof (rule conjI; rule impI)
      assume a: "numericValue s = Some n \<and> (n < lo \<or> hi < n)"
      then have "\<exists>e. strconv_ParseUint s 32 = Inl e"
        using ParseUint_out_of_range[of 32 s n] u32 by auto
      then show "\<exists>e. toMMDBType pf t s optim = Inl e" by (auto simp: co)
    next
      assume r: "toMMDBType pf t s optim = Inr v"
      then obtain u where u: "strconv_ParseUint s 32 = Inr u" and v: "v = Uint32 (word_of_nat u)"
        by (auto simp: co split: sum.splits)
      from ParseUint_numericValue[OF _ u] have nu: "numericValue s = Some (int u)" "u < 2 ^ 32"
        by simp_all
      then have "uint (word_of_nat u :: 32 word) = int u" by (simp add: uint_of_nat_small)
      with nu v u32 show "numericValue s = Some (intValue v) \<and> lo \<le> intValue v \<and> intValue v \<le> hi
            \<and> scalarTag v = Some t" by simp
    qed
  next
    case u64
    have co: "toMMDBType pf t s optim =
       (case strconv_ParseUint s 64 of Inl err \<Rightarrow> Inl err | Inr v \<Rightarrow> Inr (Uint64 (word_of_nat v)))"
      by (simp add: toMMDBType_def u64)
    show ?thesis
    proof (rule conjI; rule impI)
      assume a: "numericValue s = Some n \<and> (n < lo \<or> hi < n)"
      then have "\<exists>e. strconv_ParseUint s 64 = Inl e"
        using ParseUint_out_of_range[of 64 s n] u64 by auto
      then show "\<exists>e. toMMDBType pf t s optim = Inl e" by (auto simp: co)
    next
      assume r: "toMMDBType pf t s optim = Inr v"
      then obtain u where u: "strconv_ParseUint s 64 = Inr u" and v: "v = Uint64 (word_of_nat u)"
        by (auto simp: co split: sum.splits)
      from ParseUint_numericValue[OF _ u] have nu: "numericValue s = Some (int u)" "u < 2 ^ 64"
        by simp_all
      then have "uint (word_of_nat u :: 64 word) = int u" by (simp add: uint_of_nat_small)
      with nu v u64 show "numericValue s = Some (intValue v) \<and> lo \<le> intValue v \<and> intValue v \<le> hi
            \<and> scalarTag v = Some t" by simp
    qed
  qed
qed

lemma numericValue_examples:
  "numericValue ''2147483648'' = Some 2147483648"
  "numericValue ''-1'' = Some (- 1)"
  "numericValue ''65535'' = Some 65535"
  by (simp_all add: numericValue_def isDigit_def)

lemma uint16_example_max: "toMMDBType pf ''uint16'' ''65535'' optim = Inr (Uint16 65535)"
  by (simp add: toMMDBType_def strconv_ParseUint_def maxUint64_def)

theorem integer_range_enforced_witness:
  "intRange ''int32'' = Some (- (2 ^ 31), 2 ^ 31 - 1)
   \<and> numericValue ''2147483648'' = Some 2147483648
   \<and> (\<exists>e. toMMDBType \<lparr>strconv_ParseFloat = \<lambda>s b. Inl ErrSyntax, math_Pow = \<lambda>x y. NaN\<rparr> ''int32'' ''2147483648''
            \<lparr>FloatDecimals = 0, ForceIPVersion = False, MaxPrefix = 0\<rparr> = Inl e)
   \<and> intRange ''uint16'' = Some (0, 2 ^ 16 - 1)
   \<and> numericValue ''-1'' = Some (- 1)
   \<and> (\<exists>e. toMMDBType \<lparr>strconv_ParseFloat = \<lambda>s b. Inl ErrSyntax, math_Pow = \<lambda>x y. NaN\<rparr> ''uint16'' ''-1''
            \<lparr>FloatDecimals = 0, ForceIPVersion = False, MaxPrefix = 0\<rparr> = Inl e)
   \<and> toMMDBType \<lparr>strconv_ParseFloat = \<lambda>s b. Inl ErrSyntax, math_Pow = \<lambda>x y. NaN\<rparr> ''uint16'' ''65535''
        \<lparr>FloatDecimals = 0, ForceIPVersion = False, MaxPrefix = 0\<rparr> = Inr (Uint16 65535)
   \<and> numericValue ''65535'' = Some (intValue (Uint16 65535))"
proof -
  let ?pf = "\<lparr>strconv_ParseFloat = \<lambda>(s::string) (b::nat). (Inl ErrSyntax :: error + float64), math_Pow = \<lambda>(x::float64) (y::float64). NaN\<rparr>"
  let ?optim = "\<lparr>FloatDecimals = 0, ForceIPVersion = False, MaxPrefix = 0\<rparr>"
  have r32: "intRange ''int32'' = Some (- (2 ^ 31), 2 ^ 31 - 1)" by (simp add: intRange_def)
  have r16: "intRange ''uint16'' = Some (0, 2 ^ 16 - 1)" by (simp add: intRange_def)
  from integer_range_enforced[OF r32, of "''2147483648''" 2147483648 ?pf ?optim]
  have a: "\<exists>e. toMMDBType ?pf ''int32'' ''2147483648'' ?optim = Inl e"
    by (simp add: numericValue_examples)
  from integer_range_enforced[OF r16, of "''-1''" "- 1" ?pf ?optim]
  have b: "\<exists>e. toMMDBType ?pf ''uint16'' ''-1'' ?optim = Inl e"
    by (simp add: numericValue_examples)
  from integer_range_enforced[OF r16, of "''65535''" 0 ?pf ?optim "Uint16 65535"]
  have c: "numericValue ''65535'' = Some (intValue (Uint16 65535))"
    by (simp add: uint16_example_max)
  from a b c r32 r16 show ?thesis
    by (simp add: numericValue_examples uint16_example_max)
qed

subsection \<open>Floating point numbers\<close>



















text \<open>
  The rounding of a given number, for the evaluation of the operations on an example:
  \<open>k\<close> is the exponent of the number.
\<close>

lemma floor_log2:
  assumes "2 powr of_int k \<le> m" and "m < 2 powr of_int (k + 1)"
  shows "\<lfloor>log 2 m\<rfloor> = k"
proof (rule floor_unique)
  have mpos: "0 < m" using assms(1) by (smt (verit) powr_gt_zero)
  show "of_int k \<le> log 2 m" using assms(1) mpos by (simp add: le_log_iff)
  show "log 2 m < of_int k + 1" using assms(2) mpos by (simp add: log_less_iff add.commute)
qed

lemma roundFloat64_eval:
  assumes "2 powr of_int k \<le> m" and "m < 2 powr of_int (k + 1)" and "- 1022 \<le> k"
    and "r = of_int (roundHalfEven (m / 2 powr of_int (k - 52))) * 2 powr of_int (k - 52)"
  shows "roundFloat64 neg m = (if 2 ^ 1024 \<le> r then Infinity neg else Finite neg r)"
proof -
  have mpos: "0 < m" using assms(1) by (smt (verit) powr_gt_zero)
  have "ulpExponent 53 (- 1074) m = k - 52"
    using floor_log2[OF assms(1,2)] assms(3) by (simp add: ulpExponent_def)
  then have "roundMagnitude 53 (- 1074) m = r"
    using mpos assms(4) by (simp add: roundMagnitude_def)
  then show ?thesis by (simp add: roundFloat64_def roundFloat_def)
qed

lemma roundFloat32_eval:
  assumes "2 powr of_int k \<le> m" and "m < 2 powr of_int (k + 1)" and "- 126 \<le> k"
    and "r = of_int (roundHalfEven (m / 2 powr of_int (k - 23))) * 2 powr of_int (k - 23)"
  shows "roundFloat32 neg m = (if 2 ^ 128 \<le> r then Infinity neg else Finite neg r)"
proof -
  have mpos: "0 < m" using assms(1) by (smt (verit) powr_gt_zero)
  have "ulpExponent 24 (- 149) m = k - 23"
    using floor_log2[OF assms(1,2)] assms(3) by (simp add: ulpExponent_def)
  then have "roundMagnitude 24 (- 149) m = r"
    using mpos assms(4) by (simp add: roundMagnitude_def)
  then show ?thesis by (simp add: roundFloat32_def roundFloat_def)
qed




lemma example_nearest_267:
  "roundFloat64 False (267 / 100) = Finite False (6012305502539612 / 2 ^ 51)"
  by (subst roundFloat64_eval[where k = 1 and r = "6012305502539612 / 2 ^ 51"])
     (simp_all add: powr_minus roundHalfEven_def)

lemma example_overflow:
  "float_mul (Finite False (2 ^ 1023)) (Finite False 100) = Infinity False"
proof -
  have "roundFloat64 False (2 ^ 1023 * 100) = Infinity False"
    by (subst roundFloat64_eval[where k = 1029 and r = "2 ^ 1023 * 100"])
       (simp_all add: roundHalfEven_def)
  then show ?thesis by simp
qed

text \<open>
  The conversion to \<open>float32\<close> rounds again: the \<open>float64\<close> quotient of 1 by
  10 becomes the \<open>float32\<close> nearest to it.
\<close>

lemma example_narrowing:
  "toFloat32 (float_div (Finite False 1) (Finite False 10)) = Finite False (13421773 / 2 ^ 27)"
proof -
  have q: "roundFloat64 False (1 / 10) = Finite False (3602879701896397 / 2 ^ 55)"
    by (subst roundFloat64_eval[where k = "- 4" and r = "3602879701896397 / 2 ^ 55"])
       (simp_all add: powr_minus roundHalfEven_def)
  have n: "roundFloat32 False (3602879701896397 / 2 ^ 55) = Finite False (13421773 / 2 ^ 27)"
    by (subst roundFloat32_eval[where k = "- 4" and r = "13421773 / 2 ^ 27"])
       (simp_all add: powr_minus roundHalfEven_def)
  show ?thesis using q n by simp
qed






subsection \<open>Float rounding and determinism\<close>




















section \<open>Properties of LoadSources\<close>

lemma LoadSourcesLoop_step:
  "LoadSourcesLoop csv ipf types (input # rest) sources =
     (case loadInput csv ipf types input of
        Inl e \<Rightarrow> ([], Some e)
      | Inr s \<Rightarrow> LoadSourcesLoop csv ipf types rest (sources @ [s]))"
  by (simp add: loadInput_def split: sum.splits)

lemma LoadSourcesLoop_fail:
  assumes "\<forall>input\<in>set pre. \<exists>s. loadInput csv ipf types input = Inr s"
    and "loadInput csv ipf types bad = Inl e"
  shows "LoadSourcesLoop csv ipf types (pre @ bad # post) sources = ([], Some e)"
  using assms(1)
proof (induction pre arbitrary: sources)
  case Nil
  show ?case using assms(2) by (simp add: LoadSourcesLoop_step del: LoadSourcesLoop.simps)
next
  case (Cons input pre)
  then obtain s where "loadInput csv ipf types input = Inr s" by auto
  with Cons show ?case by (simp add: LoadSourcesLoop_step del: LoadSourcesLoop.simps)
qed

lemma LoadSourcesLoop_ok:
  assumes "\<forall>input\<in>set inputs. \<exists>s. loadInput csv ipf types input = Inr s"
  shows "LoadSourcesLoop csv ipf types inputs sources =
           (sources @ map (\<lambda>input. projr (loadInput csv ipf types input)) inputs, None)"
  using assms
proof (induction inputs arbitrary: sources)
  case Nil
  show ?case by simp
next
  case (Cons input inputs)
  then obtain s where "loadInput csv ipf types input = Inr s" by auto
  with Cons show ?case by (simp add: LoadSourcesLoop_step del: LoadSourcesLoop.simps)
qed

lemma LoadSourcesLoop_some_fail:
  assumes "\<exists>input\<in>set inputs. \<exists>e. loadInput csv ipf types input = Inl e"
  shows "\<exists>e. LoadSourcesLoop csv ipf types inputs sources = ([], Some e)"
proof -
  from split_list_first_prop[OF assms] obtain pre bad post where
    s: "inputs = pre @ bad # post" and bad: "\<exists>e. loadInput csv ipf types bad = Inl e"
    and pre: "\<forall>y\<in>set pre. \<not> (\<exists>e. loadInput csv ipf types y = Inl e)" by blast
  from bad obtain e where e: "loadInput csv ipf types bad = Inl e" by blast
  have "\<forall>input\<in>set pre. \<exists>s. loadInput csv ipf types input = Inr s"
  proof
    fix input assume "input \<in> set pre"
    with pre have "\<not> (\<exists>e. loadInput csv ipf types input = Inl e)" by blast
    then show "\<exists>s. loadInput csv ipf types input = Inr s"
      by (cases "loadInput csv ipf types input") auto
  qed
  from LoadSourcesLoop_fail[OF this e] s show ?thesis by blast
qed

lemma loadInput_unsupported:
  "\<not> strings_HasSuffix (File input) ''.csv'' \<Longrightarrow> \<not> strings_HasSuffix (File input) ''.ipfire.txt'' \<Longrightarrow>
   loadInput csv ipf types input = Inl (UnsupportedInputFile (File input))"
  by (simp add: loadInput_def)

text \<open>
  Claim C10, as amended. \<open>LoadSources\<close> chooses the loader by the suffix of the
  file name. If some input file name ends neither in \<open>.csv\<close> nor in
  \<open>.ipfire.txt\<close>, or loading some input fails, it returns an error and no sources
  at all. The error is that of the first input, in the order of the configuration, that
  is unsupported or fails to load: it names the unsupported file when every input before
  it loads.
\<close>

theorem LoadSources_first_offending_input:
  "((\<exists>input\<in>set (Inputs dbConfig).
        \<not> strings_HasSuffix (File input) ''.csv'' \<and> \<not> strings_HasSuffix (File input) ''.ipfire.txt'')
      \<longrightarrow> (\<exists>e. LoadSources csv ipf dbConfig = ([], Some e)))
   \<and> ((\<exists>input\<in>set (Inputs dbConfig). \<exists>e. loadInput csv ipf (Types dbConfig) input = Inl e)
      \<longrightarrow> (\<exists>e. LoadSources csv ipf dbConfig = ([], Some e)))
   \<and> (Inputs dbConfig = pre @ bad # post
        \<and> (\<forall>input\<in>set pre. \<exists>s. loadInput csv ipf (Types dbConfig) input = Inr s)
        \<and> \<not> strings_HasSuffix (File bad) ''.csv'' \<and> \<not> strings_HasSuffix (File bad) ''.ipfire.txt''
      \<longrightarrow> LoadSources csv ipf dbConfig = ([], Some (UnsupportedInputFile (File bad))))
   \<and> (Inputs dbConfig = pre @ bad # post
        \<and> (\<forall>input\<in>set pre. \<exists>s. loadInput csv ipf (Types dbConfig) input = Inr s)
        \<and> loadInput csv ipf (Types dbConfig) bad = Inl e
      \<longrightarrow> LoadSources csv ipf dbConfig = ([], Some e))"
proof (intro conjI impI)
  assume "\<exists>input\<in>set (Inputs dbConfig).
        \<not> strings_HasSuffix (File input) ''.csv'' \<and> \<not> strings_HasSuffix (File input) ''.ipfire.txt''"
  then have "\<exists>input\<in>set (Inputs dbConfig). \<exists>e. loadInput csv ipf (Types dbConfig) input = Inl e"
    using loadInput_unsupported by blast
  then show "\<exists>e. LoadSources csv ipf dbConfig = ([], Some e)"
    unfolding LoadSources_def by (rule LoadSourcesLoop_some_fail)
next
  assume "\<exists>input\<in>set (Inputs dbConfig). \<exists>e. loadInput csv ipf (Types dbConfig) input = Inl e"
  then show "\<exists>e. LoadSources csv ipf dbConfig = ([], Some e)"
    unfolding LoadSources_def by (rule LoadSourcesLoop_some_fail)
next
  assume a: "Inputs dbConfig = pre @ bad # post
        \<and> (\<forall>input\<in>set pre. \<exists>s. loadInput csv ipf (Types dbConfig) input = Inr s)
        \<and> \<not> strings_HasSuffix (File bad) ''.csv'' \<and> \<not> strings_HasSuffix (File bad) ''.ipfire.txt''"
  then have "loadInput csv ipf (Types dbConfig) bad = Inl (UnsupportedInputFile (File bad))"
    by (simp add: loadInput_unsupported)
  with a show "LoadSources csv ipf dbConfig = ([], Some (UnsupportedInputFile (File bad)))"
    by (simp add: LoadSources_def LoadSourcesLoop_fail)
next
  assume a: "Inputs dbConfig = pre @ bad # post
        \<and> (\<forall>input\<in>set pre. \<exists>s. loadInput csv ipf (Types dbConfig) input = Inr s)
        \<and> loadInput csv ipf (Types dbConfig) bad = Inl e"
  then show "LoadSources csv ipf dbConfig = ([], Some e)"
    by (simp add: LoadSources_def LoadSourcesLoop_fail)
qed

lemma suffix_examples:
  "strings_HasSuffix ''input/geo.csv'' ''.csv''"
  "\<not> strings_HasSuffix ''input/notes.txt'' ''.csv''"
  "\<not> strings_HasSuffix ''input/notes.txt'' ''.ipfire.txt''"
  by (simp_all add: strings_HasSuffix_def)

theorem LoadSources_first_offending_input_witness:
  "LoadSources (\<lambda>input types. Inr (File input)) (\<lambda>input types. Inr (File input))
      \<lparr>Inputs = [\<lparr>File = ''input/geo.csv'', Fields = [''from'', ''to'']\<rparr>,
                 \<lparr>File = ''input/notes.txt'', Fields = []\<rparr>],
       Types = []\<rparr>
   = ([], Some (UnsupportedInputFile ''input/notes.txt''))"
proof -
  let ?csv = "\<lambda>(input::DatabaseInput) (types::(string \<times> string) list). (Inr (File input) :: error + string)"
  let ?geo = "\<lparr>File = ''input/geo.csv'', Fields = [''from'', ''to'']\<rparr>"
  let ?notes = "\<lparr>File = ''input/notes.txt'', Fields = []\<rparr>"
  let ?cfg = "\<lparr>Inputs = [?geo, ?notes], Types = []\<rparr>"
  have i: "Inputs ?cfg = [?geo] @ ?notes # []" by simp
  have p: "\<forall>input\<in>set [?geo]. \<exists>s. loadInput ?csv ?csv (Types ?cfg) input = Inr s"
    by (simp add: loadInput_def suffix_examples)
  have u: "\<not> strings_HasSuffix (File ?notes) ''.csv'' \<and> \<not> strings_HasSuffix (File ?notes) ''.ipfire.txt''"
    by (simp add: suffix_examples)
  from LoadSources_first_offending_input[of ?cfg ?csv ?csv "[?geo]" ?notes "[]"] i p u
  have "LoadSources ?csv ?csv ?cfg = ([], Some (UnsupportedInputFile (File ?notes)))" by blast
  then show ?thesis by simp
qed

text \<open>
  With a CSV input that fails to load before an unsupported input, the error names the
  CSV file, not the unsupported one.
\<close>

theorem LoadSources_error_names_earlier_file_counterexample:
  "\<not> strings_HasSuffix ''input/notes.txt'' ''.csv''
   \<and> \<not> strings_HasSuffix ''input/notes.txt'' ''.ipfire.txt''
   \<and> LoadSources (\<lambda>input types. Inl (OtherError ''open input/geo.csv: no such file or directory''))
        (\<lambda>input types. Inr (File input))
        \<lparr>Inputs = [\<lparr>File = ''input/geo.csv'', Fields = [''from'', ''to'']\<rparr>,
                   \<lparr>File = ''input/notes.txt'', Fields = []\<rparr>],
         Types = []\<rparr>
      = ([], Some (FailedToLoadInputFile ''input/geo.csv''
                     (OtherError ''open input/geo.csv: no such file or directory'')))
   \<and> LoadSources (\<lambda>input types. Inl (OtherError ''open input/geo.csv: no such file or directory''))
        (\<lambda>input types. Inr (File input))
        \<lparr>Inputs = [\<lparr>File = ''input/geo.csv'', Fields = [''from'', ''to'']\<rparr>,
                   \<lparr>File = ''input/notes.txt'', Fields = []\<rparr>],
         Types = []\<rparr>
      \<noteq> ([], Some (UnsupportedInputFile ''input/notes.txt''))"
  by (simp add: LoadSources_def suffix_examples)

section \<open>Properties of the document assembly\<close>

lemma Split_not_Nil: "strings_Split s \<noteq> []"
  by (induction s) (auto split: list.splits)

lemma Join_Cons_Cons: "strings_Join ((c # w) # ws) = c # strings_Join (w # ws)"
  by (cases ws) auto

lemma Join_Split: "strings_Join (strings_Split s) = s"
proof (induction s)
  case Nil
  show ?case by simp
next
  case (Cons c s)
  obtain w ws where ws: "strings_Split s = w # ws"
    using Split_not_Nil[of s] by (cases "strings_Split s") auto
  show ?case
  proof (cases "c = CHR ''.''")
    case True
    with Cons ws show ?thesis by simp
  next
    case False
    with Cons ws show ?thesis by (simp add: Join_Cons_Cons del: strings_Join.simps)
  qed
qed

lemma Split_inj: "strings_Split s = strings_Split s' \<Longrightarrow> s = s'"
  by (metis Join_Split)

lemma asMap_Some: "asMap x = Some sub \<longleftrightarrow> x = Map sub"
  by (cases x) auto

lemma setValue_deep:
  assumes "rest \<noteq> []"
  shows "setValue key topPart (part # rest) v m =
     (case subMapOf m part of
        None \<Rightarrow> Inl (SubmapNotAMap key topPart (typeName (the (m part))))
      | Some sub \<Rightarrow>
          (case setValue key topPart rest v sub of
             Inl err \<Rightarrow> Inl err
           | Inr sub' \<Rightarrow> Inr (m(part \<mapsto> Map sub'))))"
proof -
  from assms obtain a r where "rest = a # r" by (cases rest) auto
  then show ?thesis
    by (simp add: subMapOf_def split: option.splits)
qed

lemma setValue_deep_Inr:
  assumes "rest \<noteq> []"
  shows "setValue key topPart (part # rest) v m = Inr m' \<longleftrightarrow>
     (\<exists>sub sub'. subMapOf m part = Some sub \<and> setValue key topPart rest v sub = Inr sub'
        \<and> m' = m(part \<mapsto> Map sub'))"
  unfolding setValue_deep[OF assms] by (auto split: option.splits sum.splits)

lemma setValue_local:
  assumes "setValue key topPart (part # rest) v m = Inr m'"
  shows "\<exists>x. m' = m(part \<mapsto> x) \<and>
     (\<forall>n. n part = m part \<longrightarrow> setValue key topPart (part # rest) v n = Inr (n(part \<mapsto> x)))"
proof (cases "rest = []")
  case True
  with assms show ?thesis by auto
next
  case False
  from assms obtain sub sub' where s: "subMapOf m part = Some sub"
    "setValue key topPart rest v sub = Inr sub'" "m' = m(part \<mapsto> Map sub')"
    unfolding setValue_deep_Inr[OF False] by blast
  have "\<forall>n. n part = m part \<longrightarrow> setValue key topPart (part # rest) v n = Inr (n(part \<mapsto> Map sub'))"
  proof (intro allI impI)
    fix n :: mmdbMap assume "n part = m part"
    then have "subMapOf n part = Some sub" using s(1) by (simp add: subMapOf_def)
    with s(2) show "setValue key topPart (part # rest) v n = Inr (n(part \<mapsto> Map sub'))"
      unfolding setValue_deep_Inr[OF False] by blast
  qed
  with s(3) show ?thesis by blast
qed

lemma subMapOf_upd_Map: "subMapOf (m(part \<mapsto> Map sub)) part = Some sub"
  by (simp add: subMapOf_def)

lemma setValue_swap:
  assumes "\<not> prefix p q" and "\<not> prefix q p"
    and "setValue k1 t1 p v m = Inr m1" and "setValue k2 t2 q w m1 = Inr m2"
  shows "\<exists>n. setValue k2 t2 q w m = Inr n \<and> setValue k1 t1 p v n = Inr m2"
  using assms
proof (induction p arbitrary: q m m1 m2)
  case Nil
  then show ?case by simp
next
  case (Cons a ps)
  from Cons.prems(2) obtain b qs where q: "q = b # qs" by (cases q) auto
  show ?case
  proof (cases "a = b")
    case False
    from setValue_local[OF Cons.prems(3)] obtain x where
      x: "m1 = m(a \<mapsto> x)"
      "\<forall>n. n a = m a \<longrightarrow> setValue k1 t1 (a # ps) v n = Inr (n(a \<mapsto> x))" by blast
    from setValue_local[OF Cons.prems(4)[unfolded q]] obtain y where
      y: "m2 = m1(b \<mapsto> y)"
      "\<forall>n. n b = m1 b \<longrightarrow> setValue k2 t2 (b # qs) w n = Inr (n(b \<mapsto> y))" by blast
    have "m b = m1 b" using x(1) False by simp
    with y(2) have 1: "setValue k2 t2 (b # qs) w m = Inr (m(b \<mapsto> y))" by simp
    have "(m(b \<mapsto> y)) a = m a" using False by simp
    with x(2) have 2: "setValue k1 t1 (a # ps) v (m(b \<mapsto> y)) = Inr ((m(b \<mapsto> y))(a \<mapsto> x))"
      by blast
    have "(m(b \<mapsto> y))(a \<mapsto> x) = m2" using x(1) y(1) False by (simp add: fun_upd_twist)
    with 1 2 q show ?thesis by simp
  next
    case True
    with Cons.prems(1,2) q have ps: "ps \<noteq> []" and qs: "qs \<noteq> []"
      and inc: "\<not> prefix ps qs" "\<not> prefix qs ps" by auto
    from Cons.prems(3) obtain sub sub1 where s1: "subMapOf m a = Some sub"
      "setValue k1 t1 ps v sub = Inr sub1" "m1 = m(a \<mapsto> Map sub1)"
      unfolding setValue_deep_Inr[OF ps] by blast
    from Cons.prems(4) obtain sub1' sub2 where s2: "subMapOf m1 a = Some sub1'"
      "setValue k2 t2 qs w sub1' = Inr sub2" "m2 = m1(a \<mapsto> Map sub2)"
      unfolding q True[symmetric] setValue_deep_Inr[OF qs] by blast
    from s1(3) s2(1) have "sub1' = sub1" by (simp add: subMapOf_upd_Map)
    with s2(2) have s2': "setValue k2 t2 qs w sub1 = Inr sub2" by simp
    from Cons.IH[OF inc s1(2) s2'] obtain n where
      n: "setValue k2 t2 qs w sub = Inr n" "setValue k1 t1 ps v n = Inr sub2" by blast
    have 1: "setValue k2 t2 (a # qs) w m = Inr (m(a \<mapsto> Map n))"
      unfolding setValue_deep_Inr[OF qs] using s1(1) n(1) by blast
    have 2: "setValue k1 t1 (a # ps) v (m(a \<mapsto> Map n)) = Inr ((m(a \<mapsto> Map n))(a \<mapsto> Map sub2))"
      unfolding setValue_deep_Inr[OF ps] using n(2) subMapOf_upd_Map by blast
    have "(m(a \<mapsto> Map n))(a \<mapsto> Map sub2) = m2" using s1(3) s2(3) by simp
    with 1 2 q True show ?thesis by simp
  qed
qed

lemma leafAt_deep:
  "rest \<noteq> [] \<Longrightarrow>
   leafAt m (part # rest) =
     (case m part of
        None \<Rightarrow> False
      | Some x \<Rightarrow> (case asMap x of None \<Rightarrow> False | Some sub \<Rightarrow> leafAt sub rest))"
  by (cases rest) auto

lemma leafAt_empty: "\<not> leafAt Map.empty r"
proof (cases r)
  case Nil
  then show ?thesis by simp
next
  case (Cons a rs)
  then show ?thesis by (cases rs) auto
qed

lemma setValue_succeeds:
  assumes "p \<noteq> []" and "\<forall>r. strict_prefix r p \<longrightarrow> \<not> leafAt m r"
  shows "\<exists>m'. setValue key topPart p v m = Inr m'"
  using assms
proof (induction p arbitrary: m)
  case Nil
  then show ?case by simp
next
  case (Cons a ps)
  show ?case
  proof (cases "ps = []")
    case True
    then show ?thesis by simp
  next
    case False
    have "strict_prefix [a] (a # ps)" using False by (simp add: strict_prefix_def)
    with Cons.prems(2) have nl: "\<not> leafAt m [a]" by blast
    then obtain sub where sub: "subMapOf m a = Some sub"
      by (cases "m a") (auto simp: subMapOf_def)
    have "\<forall>r. strict_prefix r ps \<longrightarrow> \<not> leafAt sub r"
    proof (intro allI impI)
      fix r assume r: "strict_prefix r ps"
      show "\<not> leafAt sub r"
      proof (cases "r = []")
        case True
        then show ?thesis by simp
      next
        case rn: False
        from r have "strict_prefix (a # r) (a # ps)" by (simp add: strict_prefix_def)
        with Cons.prems(2) have "\<not> leafAt m (a # r)" by blast
        then show ?thesis using sub rn
          by (cases "m a") (auto simp: leafAt_deep subMapOf_def leafAt_empty)
      qed
    qed
    from Cons.IH[OF False this] obtain sub' where "setValue key topPart ps v sub = Inr sub'"
      by blast
    with sub show ?thesis unfolding setValue_deep_Inr[OF False] by blast
  qed
qed

lemma setValue_leaves:
  assumes "setValue key topPart p v m = Inr m'" and "asMap v = None" and "leafAt m' r"
  shows "r = p \<or> leafAt m r"
  using assms
proof (induction p arbitrary: m m' r)
  case Nil
  then show ?case by simp
next
  case (Cons a ps)
  from Cons.prems(3) obtain b rs where r: "r = b # rs" by (cases r) auto
  show ?case
  proof (cases "ps = []")
    case True
    with Cons.prems(1) have m': "m' = m(a \<mapsto> v)" by simp
    show ?thesis
    proof (cases "b = a")
      case ba: True
      show ?thesis
      proof (cases "rs = []")
        case True
        with ba r \<open>ps = []\<close> show ?thesis by simp
      next
        case False
        with Cons.prems(2,3) m' ba r show ?thesis by (simp add: leafAt_deep)
      qed
    next
      case False
      with Cons.prems(3) m' r show ?thesis
        by (cases "rs = []") (simp_all add: leafAt_deep)
    qed
  next
    case False
    from Cons.prems(1) obtain sub sub' where s: "subMapOf m a = Some sub"
      "setValue key topPart ps v sub = Inr sub'" "m' = m(a \<mapsto> Map sub')"
      unfolding setValue_deep_Inr[OF False] by blast
    show ?thesis
    proof (cases "b = a")
      case ba: True
      show ?thesis
      proof (cases "rs = []")
        case True
        with Cons.prems(3) s(3) ba r show ?thesis by simp
      next
        case rn: False
        with Cons.prems(3) s(3) ba r have "leafAt sub' rs" by (simp add: leafAt_deep)
        from Cons.IH[OF s(2) Cons.prems(2) this] have "rs = ps \<or> leafAt sub rs" .
        then show ?thesis
        proof
          assume "rs = ps"
          with ba r show ?thesis by simp
        next
          assume l: "leafAt sub rs"
          have "leafAt m (a # rs)"
          proof (cases "m a")
            case None
            with s(1) have "sub = Map.empty" by (simp add: subMapOf_def)
            with l leafAt_empty show ?thesis by simp
          next
            case (Some x)
            with s(1) have "asMap x = Some sub" by (simp add: subMapOf_def)
            with Some l rn show ?thesis by (simp add: leafAt_deep)
          qed
          with ba r show ?thesis by simp
        qed
      qed
    next
      case False
      with Cons.prems(3) s(3) r show ?thesis
        by (cases "rs = []") (simp_all add: leafAt_deep)
    qed
  qed
qed

lemma independentPaths_incomparable:
  assumes "independentPaths keys" and "k1 \<in> set keys" and "k2 \<in> set keys" and "k1 \<noteq> k2"
  shows "\<not> prefix (strings_Split k1) (strings_Split k2)"
proof
  assume "prefix (strings_Split k1) (strings_Split k2)"
  then have "strings_Split k1 = strings_Split k2 \<or> strict_prefix (strings_Split k1) (strings_Split k2)"
    by (auto simp: strict_prefix_def)
  then show False
  proof
    assume "strings_Split k1 = strings_Split k2"
    then have "k1 = k2" by (rule Split_inj)
    with assms(4) show False by simp
  next
    assume "strict_prefix (strings_Split k1) (strings_Split k2)"
    with assms(1-3) show False by (auto simp: independentPaths_def)
  qed
qed

lemma independentPaths_mset:
  assumes "mset keys' = mset keys" and "independentPaths keys"
  shows "independentPaths keys'"
proof -
  from assms(1) have "set keys' = set keys" by (rule mset_eq_setD)
  moreover from assms have "distinct keys'"
    by (metis independentPaths_def mset_eq_imp_distinct_iff)
  ultimately show ?thesis using assms(2) by (simp add: independentPaths_def)
qed

lemma independentPaths_remove:
  assumes "independentPaths (ks1 @ k # ks2)"
  shows "independentPaths (ks1 @ ks2)" and "k \<notin> set ks1" and "k \<notin> set ks2"
  using assms by (auto simp: independentPaths_def)

lemma ToMMDBMapLoop_Cons_Inr:
  "ToMMDBMapLoop pf optim ((key, entry) # rest) m = Inr m' \<longleftrightarrow>
     (\<exists>v m1. ToMMDBType pf entry optim = Inr v
        \<and> setValue key (strings_Join (take 1 (strings_Split key))) (strings_Split key) v m = Inr m1
        \<and> ToMMDBMapLoop pf optim rest m1 = Inr m')"
  by (auto simp: Let_def split: sum.splits)

lemma ToMMDBMapLoop_succeeds:
  assumes "\<forall>(key, entry)\<in>set xs. \<exists>v. ToMMDBType pf entry optim = Inr v"
    and "independentPaths (map fst xs)"
    and "\<forall>key\<in>set (map fst xs). \<forall>r. strict_prefix r (strings_Split key) \<longrightarrow> \<not> leafAt m r"
  shows "\<exists>m'. ToMMDBMapLoop pf optim xs m = Inr m'"
  using assms
proof (induction xs arbitrary: m)
  case Nil
  show ?case by simp
next
  case (Cons x xs)
  obtain key entry where x: "x = (key, entry)" by (cases x)
  from Cons.prems(1) x obtain v where v: "ToMMDBType pf entry optim = Inr v" by auto
  then have nm: "asMap v = None" by (rule ToMMDBType_asMap)
  let ?p = "strings_Split key"
  have "\<forall>r. strict_prefix r ?p \<longrightarrow> \<not> leafAt m r" using Cons.prems(3) x by simp
  from setValue_succeeds[OF Split_not_Nil this] obtain m1 where
    m1: "setValue key (strings_Join (take 1 ?p)) ?p v m = Inr m1" by blast
  have ind: "independentPaths (map fst xs)"
    using Cons.prems(2) by (auto simp: independentPaths_def)
  have inv: "\<forall>k\<in>set (map fst xs). \<forall>r. strict_prefix r (strings_Split k) \<longrightarrow> \<not> leafAt m1 r"
  proof (intro ballI allI impI)
    fix k r assume k: "k \<in> set (map fst xs)" and r: "strict_prefix r (strings_Split k)"
    show "\<not> leafAt m1 r"
    proof
      assume "leafAt m1 r"
      from setValue_leaves[OF m1 nm this] have "r = ?p \<or> leafAt m r" .
      then show False
      proof
        assume "r = ?p"
        with r have "strict_prefix (strings_Split key) (strings_Split k)" by simp
        moreover have "key \<in> set (map fst (x # xs))" "k \<in> set (map fst (x # xs))"
          using x k by simp_all
        ultimately show False using Cons.prems(2) unfolding independentPaths_def by blast
      next
        assume "leafAt m r"
        moreover have "k \<in> set (map fst (x # xs))" using k by simp
        ultimately show False using Cons.prems(3) r by blast
      qed
    qed
  qed
  have "\<forall>(key, entry)\<in>set xs. \<exists>v. ToMMDBType pf entry optim = Inr v"
    using Cons.prems(1) by simp
  from Cons.IH[OF this ind inv] obtain m' where "ToMMDBMapLoop pf optim xs m1 = Inr m'" by blast
  with v m1 show ?case unfolding x ToMMDBMapLoop_Cons_Inr by blast
qed

lemma ToMMDBMapLoop_move_front:
  assumes "ToMMDBMapLoop pf optim (ys @ x # zs) m = Inr m'"
    and "\<forall>y\<in>set ys. \<not> prefix (strings_Split (fst x)) (strings_Split (fst y))
                    \<and> \<not> prefix (strings_Split (fst y)) (strings_Split (fst x))"
  shows "ToMMDBMapLoop pf optim (x # ys @ zs) m = Inr m'"
  using assms
proof (induction ys arbitrary: m)
  case Nil
  then show ?case by simp
next
  case (Cons y ys)
  obtain ky ey where y: "y = (ky, ey)" by (cases y)
  obtain kx ex where x: "x = (kx, ex)" by (cases x)
  let ?set = "\<lambda>k. setValue k (strings_Join (take 1 (strings_Split k))) (strings_Split k)"
  from Cons.prems(1) obtain vy my where
    vy: "ToMMDBType pf ey optim = Inr vy" and my: "?set ky vy m = Inr my"
    and rest: "ToMMDBMapLoop pf optim (ys @ x # zs) my = Inr m'"
    unfolding y append_Cons ToMMDBMapLoop_Cons_Inr by blast
  have "ToMMDBMapLoop pf optim (x # ys @ zs) my = Inr m'"
    using Cons.IH[OF rest] Cons.prems(2) by simp
  then obtain vx mxy where
    vx: "ToMMDBType pf ex optim = Inr vx" and mxy: "?set kx vx my = Inr mxy"
    and rest': "ToMMDBMapLoop pf optim (ys @ zs) mxy = Inr m'"
    unfolding x ToMMDBMapLoop_Cons_Inr by blast
  have inc: "\<not> prefix (strings_Split ky) (strings_Split kx)" "\<not> prefix (strings_Split kx) (strings_Split ky)"
    using Cons.prems(2) x y by simp_all
  from setValue_swap[OF inc my mxy] obtain n where
    n: "?set kx vx m = Inr n" "?set ky vy n = Inr mxy" by blast
  from vy n(2) rest' have "ToMMDBMapLoop pf optim (y # ys @ zs) n = Inr m'"
    unfolding y ToMMDBMapLoop_Cons_Inr by blast
  with vx n(1) show ?case unfolding x append_Cons ToMMDBMapLoop_Cons_Inr by blast
qed

lemma ToMMDBMapLoop_permute:
  assumes "mset ys = mset xs" and "independentPaths (map fst xs)"
    and "ToMMDBMapLoop pf optim xs m = Inr m'"
  shows "ToMMDBMapLoop pf optim ys m = Inr m'"
  using assms
proof (induction ys arbitrary: xs m)
  case Nil
  then show ?case by simp
next
  case (Cons y ys)
  from Cons.prems(1) have "y \<in> set xs" by (metis list.set_intros(1) mset_eq_setD)
  then obtain xs1 xs2 where xs: "xs = xs1 @ y # xs2" by (auto simp: in_set_conv_decomp)
  with Cons.prems(1) have ms: "mset ys = mset (xs1 @ xs2)" by simp
  have ind: "independentPaths (map fst xs1 @ fst y # map fst xs2)"
    using Cons.prems(2) xs by simp
  have inc: "\<forall>z\<in>set xs1. \<not> prefix (strings_Split (fst y)) (strings_Split (fst z))
                    \<and> \<not> prefix (strings_Split (fst z)) (strings_Split (fst y))"
  proof
    fix z assume z: "z \<in> set xs1"
    then have zin: "fst z \<in> set (map fst xs1 @ fst y # map fst xs2)" by simp
    have yin: "fst y \<in> set (map fst xs1 @ fst y # map fst xs2)" by simp
    have "fst y \<notin> set (map fst xs1)" using independentPaths_remove(2)[OF ind] .
    with z have ne: "fst z \<noteq> fst y" by (metis image_eqI list.set_map)
    from independentPaths_incomparable[OF ind yin zin] independentPaths_incomparable[OF ind zin yin] ne
    show "\<not> prefix (strings_Split (fst y)) (strings_Split (fst z))
                    \<and> \<not> prefix (strings_Split (fst z)) (strings_Split (fst y))" by auto
  qed
  from Cons.prems(3) have front: "ToMMDBMapLoop pf optim (y # xs1 @ xs2) m = Inr m'"
    unfolding xs using inc by (rule ToMMDBMapLoop_move_front)
  obtain ky ey where y: "y = (ky, ey)" by (cases y)
  from front obtain v m1 where
    v: "ToMMDBType pf ey optim = Inr v"
    and m1: "setValue ky (strings_Join (take 1 (strings_Split ky))) (strings_Split ky) v m = Inr m1"
    and rest: "ToMMDBMapLoop pf optim (xs1 @ xs2) m1 = Inr m'"
    unfolding y ToMMDBMapLoop_Cons_Inr by blast
  have "independentPaths (map fst (xs1 @ xs2))"
    using independentPaths_remove(1)[OF ind] by simp
  from Cons.IH[OF ms this rest] have "ToMMDBMapLoop pf optim ys m1 = Inr m'" .
  with v m1 show ?case unfolding y ToMMDBMapLoop_Cons_Inr by blast
qed



text \<open>
  Claim C4. When the keys of the flat mapping are independent (no dotted path is a
  prefix of another) and every value coerces, \<open>ToMMDBMap\<close> succeeds and returns the
  same document for every order in which the entries are visited. In particular the
  mapping of \<open>a.b\<close> to X and \<open>a.c\<close> to Y gives a document whose sub-document
  \<open>a\<close> holds both \<open>b\<close> and \<open>c\<close>.
\<close>

theorem assembly_order_independent:
  "(independentPaths (map fst (Values se))
      \<and> (\<forall>(key, entry)\<in>set (Values se). \<exists>v. ToMMDBType pf entry optim = Inr v)
      \<and> mset (Values se') = mset (Values se)
    \<longrightarrow> (\<exists>m. ToMMDBMap pf se optim = Inr m \<and> ToMMDBMap pf se' optim = Inr m))
   \<and> (ToMMDBType pf svX optim = Inr X \<and> ToMMDBType pf svY optim = Inr Y
      \<and> Values se2 = [(''a.b'', svX), (''a.c'', svY)]
    \<longrightarrow> ToMMDBMap pf se2 optim = Inr [''a'' \<mapsto> Map [''b'' \<mapsto> X, ''c'' \<mapsto> Y]])"
proof (rule conjI; rule impI)
  assume a: "independentPaths (map fst (Values se))
      \<and> (\<forall>(key, entry)\<in>set (Values se). \<exists>v. ToMMDBType pf entry optim = Inr v)
      \<and> mset (Values se') = mset (Values se)"
  have "\<forall>key\<in>set (map fst (Values se)). \<forall>r. strict_prefix r (strings_Split key) \<longrightarrow> \<not> leafAt Map.empty r"
    by (simp add: leafAt_empty)
  with a obtain m where m: "ToMMDBMapLoop pf optim (Values se) Map.empty = Inr m"
    using ToMMDBMapLoop_succeeds by blast
  with a have "ToMMDBMapLoop pf optim (Values se') Map.empty = Inr m"
    using ToMMDBMapLoop_permute by blast
  with m show "\<exists>m. ToMMDBMap pf se optim = Inr m \<and> ToMMDBMap pf se' optim = Inr m"
    by (auto simp: ToMMDBMap_def)
next
  assume "ToMMDBType pf svX optim = Inr X \<and> ToMMDBType pf svY optim = Inr Y
      \<and> Values se2 = [(''a.b'', svX), (''a.c'', svY)]"
  then show "ToMMDBMap pf se2 optim = Inr [''a'' \<mapsto> Map [''b'' \<mapsto> X, ''c'' \<mapsto> Y]]"
    by (simp add: ToMMDBMap_def)
qed

lemma string_example: "ToMMDBType pf \<lparr>Type = ''string'', Value = s\<rparr> optim = Inr (String s)"
  by (simp add: ToMMDBType_def strings_CutPrefix_def strings_HasPrefix_def toMMDBType_def)

lemma uint16_example_seven: "ToMMDBType pf \<lparr>Type = ''uint16'', Value = ''7''\<rparr> optim = Inr (Uint16 7)"
  by (simp add: ToMMDBType_def strings_CutPrefix_def strings_HasPrefix_def toMMDBType_def
      strconv_ParseUint_def maxUint64_def)

theorem assembly_order_independent_witness:
  "ToMMDBMap \<lparr>strconv_ParseFloat = \<lambda>s b. Inl ErrSyntax, math_Pow = \<lambda>x y. NaN\<rparr>
      \<lparr>Net = None, From = [], To = [],
       Values = [(''a.b'', \<lparr>Type = ''string'', Value = ''X''\<rparr>), (''a.c'', \<lparr>Type = ''uint16'', Value = ''7''\<rparr>)]\<rparr>
      \<lparr>FloatDecimals = 0, ForceIPVersion = False, MaxPrefix = 0\<rparr>
    = Inr [''a'' \<mapsto> Map [''b'' \<mapsto> String ''X'', ''c'' \<mapsto> Uint16 7]]
   \<and> ToMMDBMap \<lparr>strconv_ParseFloat = \<lambda>s b. Inl ErrSyntax, math_Pow = \<lambda>x y. NaN\<rparr>
      \<lparr>Net = None, From = [], To = [],
       Values = [(''a.c'', \<lparr>Type = ''uint16'', Value = ''7''\<rparr>), (''a.b'', \<lparr>Type = ''string'', Value = ''X''\<rparr>)]\<rparr>
      \<lparr>FloatDecimals = 0, ForceIPVersion = False, MaxPrefix = 0\<rparr>
    = Inr [''a'' \<mapsto> Map [''b'' \<mapsto> String ''X'', ''c'' \<mapsto> Uint16 7]]"
proof -
  let ?pf = "\<lparr>strconv_ParseFloat = \<lambda>(s::string) (b::nat). (Inl ErrSyntax :: error + float64), math_Pow = \<lambda>(x::float64) (y::float64). NaN\<rparr>"
  let ?optim = "\<lparr>FloatDecimals = 0, ForceIPVersion = False, MaxPrefix = 0\<rparr>"
  let ?x = "\<lparr>Type = ''string'', Value = ''X''\<rparr>"
  let ?y = "\<lparr>Type = ''uint16'', Value = ''7''\<rparr>"
  let ?se = "\<lparr>Net = None, From = [], To = [], Values = [(''a.b'', ?x), (''a.c'', ?y)]\<rparr>"
  let ?se' = "\<lparr>Net = None, From = [], To = [], Values = [(''a.c'', ?y), (''a.b'', ?x)]\<rparr>"
  have ind: "independentPaths (map fst (Values ?se))"
    by (simp add: independentPaths_def)
  have co: "\<forall>(key, entry)\<in>set (Values ?se). \<exists>v. ToMMDBType ?pf entry ?optim = Inr v"
    by (simp add: string_example uint16_example_seven)
  have ms: "mset (Values ?se') = mset (Values ?se)" by simp
  have ex: "ToMMDBType ?pf ?x ?optim = Inr (String ''X'') \<and> ToMMDBType ?pf ?y ?optim = Inr (Uint16 7)
      \<and> Values ?se = [(''a.b'', ?x), (''a.c'', ?y)]"
    by (simp add: string_example uint16_example_seven)
  note t = assembly_order_independent[of ?se ?pf ?optim ?se' ?x "String ''X''" ?y "Uint16 7" ?se]
  from t ex have 1: "ToMMDBMap ?pf ?se ?optim = Inr [''a'' \<mapsto> Map [''b'' \<mapsto> String ''X'', ''c'' \<mapsto> Uint16 7]]"
    by blast
  from t ind co ms obtain m where "ToMMDBMap ?pf ?se ?optim = Inr m" "ToMMDBMap ?pf ?se' ?optim = Inr m"
    by blast
  with 1 show ?thesis by simp
qed

text \<open>
  Claim C1 asks that a mapping holding both a path and a strict extension of it fails
  in either order. \<open>ToMMDBMap\<close> on the mapping of \<open>a\<close> to X and \<open>a.b\<close> to Y:
  when \<open>a.b\<close> is visited first, the write of \<open>a\<close> replaces the sub-document and
  the result is the document with \<open>a\<close> alone, without an error; when \<open>a\<close> is
  visited first, \<open>a.b\<close> fails on the scalar found at \<open>a\<close>.
\<close>

theorem conflicting_paths_order_dependent:
  "ToMMDBMap pf
      \<lparr>Net = None, From = [], To = [],
       Values = [(''a.b'', \<lparr>Type = ''string'', Value = ''Y''\<rparr>), (''a'', \<lparr>Type = ''string'', Value = ''X''\<rparr>)]\<rparr>
      optim
    = Inr [''a'' \<mapsto> String ''X'']
   \<and> ToMMDBMap pf
      \<lparr>Net = None, From = [], To = [],
       Values = [(''a'', \<lparr>Type = ''string'', Value = ''X''\<rparr>), (''a.b'', \<lparr>Type = ''string'', Value = ''Y''\<rparr>)]\<rparr>
      optim
    = Inl (SubmapNotAMap ''a.b'' ''a'' ''mmdbtype.String'')"
  by (simp add: ToMMDBMap_def string_example)

end
